theory Spec2Isabelle
  imports Complex_Main "HOL-Library.Log_Nat"
begin

section \<open>Errors\<close>

text \<open>
  The exceptions \<^verbatim>\<open>modify_icon.py\<close> can raise, as values. The two \<^verbatim>\<open>ValueError\<close>s the
  program raises itself are kept apart by their message: \<open>FormatError\<close> is the one of
  \<^verbatim>\<open>parse_c_file\<close> ("Could not find valid uint8_t array definition"), \<open>DimensionError\<close>
  the one of \<^verbatim>\<open>apply_modifications\<close> ("Pixel count ... does not match dimensions").
  \<open>ValueError\<close> stands for every other \<^verbatim>\<open>ValueError\<close> of the interpreter (\<^verbatim>\<open>int(nan)\<close>,
  \<^verbatim>\<open>math.sqrt\<close> of a negative number, unpacking a short slice).
\<close>

datatype error = FormatError | DimensionError | ValueError | OverflowError | ZeroDivisionError

definition and_then :: "error + 'a \<Rightarrow> ('a \<Rightarrow> error + 'b) \<Rightarrow> error + 'b" where
  "and_then m f = (case m of Inl e \<Rightarrow> Inl e | Inr v \<Rightarrow> f v)"

fun for_each :: "('a \<Rightarrow> 's \<Rightarrow> error + 's) \<Rightarrow> 'a list \<Rightarrow> 's \<Rightarrow> error + 's" where
  "for_each f [] s = Inr s"
| "for_each f (x # xs) s = and_then (f x s) (for_each f xs)"


section \<open>Python floats\<close>

text \<open>
  A Python \<^verbatim>\<open>float\<close> is an IEEE 754 binary64 number. A finite one is kept as the rational
  it denotes; \<open>-0.0\<close> is identified with \<open>0.0\<close>, which the program cannot tell apart (it
  compares, adds, multiplies, divides by the constant 1.5, takes square roots and truncates,
  and never prints a float). Every arithmetic operation rounds the exact result to the
  nearest binary64 number, ties to even (\<open>rnd\<close>).
\<close>

datatype pyfloat = Fin rat | PInf | NInf | NaN

definition ilog2 :: "rat \<Rightarrow> int" where
  "ilog2 x = (let (p, q) = quotient_of \<bar>x\<bar>; d = bitlen p - bitlen q
              in if 2 powi d \<le> \<bar>x\<bar> then d else d - 1)"

definition ulp :: "rat \<Rightarrow> rat" where
  "ulp x = 2 powi (max (ilog2 x) (- 1022) - 52)"

definition round_half_even :: "rat \<Rightarrow> int" where
  "round_half_even x = (let f = \<lfloor>x\<rfloor>; d = x - of_int f
     in if d < 1 / 2 then f else if 1 / 2 < d then f + 1 else if even f then f else f + 1)"

definition rnd_fin :: "rat \<Rightarrow> rat" where
  "rnd_fin x = (if x = 0 then 0 else of_int (round_half_even (x / ulp x)) * ulp x)"

definition rnd :: "rat \<Rightarrow> pyfloat" where
  "rnd x = (let r = rnd_fin x
            in if 2 ^ 1024 \<le> r then PInf else if r \<le> - (2 ^ 1024) then NInf else Fin r)"

text \<open>The finite binary64 numbers: \<open>m * 2^e\<close> with \<open>|m| < 2^53\<close> and \<open>-1074 \<le> e \<le> 971\<close>.\<close>

definition is_double :: "rat \<Rightarrow> bool" where
  "is_double x \<longleftrightarrow> (\<exists>m e. x = of_int m * 2 powi e \<and> \<bar>m\<bar> < 2 ^ 53 \<and> - 1074 \<le> e \<and> e \<le> 971)"

fun fneg :: "pyfloat \<Rightarrow> pyfloat" where
  "fneg (Fin a) = Fin (- a)"
| "fneg PInf = NInf"
| "fneg NInf = PInf"
| "fneg NaN = NaN"

fun fadd :: "pyfloat \<Rightarrow> pyfloat \<Rightarrow> pyfloat" where
  "fadd (Fin a) (Fin b) = rnd (a + b)"
| "fadd NaN _ = NaN"
| "fadd _ NaN = NaN"
| "fadd PInf NInf = NaN"
| "fadd NInf PInf = NaN"
| "fadd PInf _ = PInf"
| "fadd _ PInf = PInf"
| "fadd NInf _ = NInf"
| "fadd _ NInf = NInf"

definition fsub :: "pyfloat \<Rightarrow> pyfloat \<Rightarrow> pyfloat" where
  "fsub a b = fadd a (fneg b)"

fun fsign :: "pyfloat \<Rightarrow> rat" where
  "fsign (Fin a) = sgn a"
| "fsign PInf = 1"
| "fsign NInf = - 1"
| "fsign NaN = 0"

fun fmul :: "pyfloat \<Rightarrow> pyfloat \<Rightarrow> pyfloat" where
  "fmul (Fin a) (Fin b) = rnd (a * b)"
| "fmul NaN _ = NaN"
| "fmul _ NaN = NaN"
| "fmul a b = (if fsign a * fsign b = 0 then NaN else if 0 < fsign a * fsign b then PInf else NInf)"

text \<open>Float division raises \<^verbatim>\<open>ZeroDivisionError\<close> on a zero divisor.\<close>

fun fdiv :: "pyfloat \<Rightarrow> pyfloat \<Rightarrow> error + pyfloat" where
  "fdiv (Fin a) (Fin b) = (if b = 0 then Inl ZeroDivisionError else Inr (rnd (a / b)))"
| "fdiv NaN _ = Inr NaN"
| "fdiv _ NaN = Inr NaN"
| "fdiv a (Fin b) = (if b = 0 then Inl ZeroDivisionError
                     else if 0 < fsign a * sgn b then Inr PInf else Inr NInf)"
| "fdiv (Fin a) _ = Inr (Fin 0)"
| "fdiv _ _ = Inr NaN"

fun flt :: "pyfloat \<Rightarrow> pyfloat \<Rightarrow> bool" where
  "flt NaN _ = False"
| "flt _ NaN = False"
| "flt (Fin a) (Fin b) = (a < b)"
| "flt _ NInf = False"
| "flt NInf _ = True"
| "flt PInf _ = False"
| "flt _ PInf = True"

fun feq :: "pyfloat \<Rightarrow> pyfloat \<Rightarrow> bool" where
  "feq NaN _ = False"
| "feq _ NaN = False"
| "feq a b = (a = b)"

definition fgt :: "pyfloat \<Rightarrow> pyfloat \<Rightarrow> bool" where
  "fgt a b = flt b a"

definition fge :: "pyfloat \<Rightarrow> pyfloat \<Rightarrow> bool" where
  "fge a b = (flt b a \<or> feq a b)"

text \<open>
  Python compares an \<^verbatim>\<open>int\<close> with a \<^verbatim>\<open>float\<close> by value, without first rounding the
  integer to a float: \<open>exact i\<close> is the integer as an operand of such a comparison.
\<close>

definition exact :: "int \<Rightarrow> pyfloat" where
  "exact i = Fin (of_int i)"

text \<open>
  In mixed arithmetic the \<^verbatim>\<open>int\<close> operand is converted to a float first, which raises
  \<^verbatim>\<open>OverflowError\<close> when the integer is too large.
\<close>

definition finite_or_overflow :: "pyfloat \<Rightarrow> error + pyfloat" where
  "finite_or_overflow f = (case f of Fin r \<Rightarrow> Inr (Fin r) | _ \<Rightarrow> Inl OverflowError)"

definition to_float :: "int \<Rightarrow> error + pyfloat" where
  "to_float i = finite_or_overflow (rnd (of_int i))"

text \<open>\<^verbatim>\<open>a / b\<close> on two \<^verbatim>\<open>int\<close>s: the correctly rounded quotient.\<close>

definition int_truediv :: "int \<Rightarrow> int \<Rightarrow> error + pyfloat" where
  "int_truediv a b = (if b = 0 then Inl ZeroDivisionError
                      else finite_or_overflow (rnd (of_int a / of_int b)))"

text \<open>\<^verbatim>\<open>int(f)\<close> truncates towards zero and raises on \<^verbatim>\<open>nan\<close> and the infinities.\<close>

definition trunc :: "rat \<Rightarrow> int" where
  "trunc q = (if 0 \<le> q then \<lfloor>q\<rfloor> else \<lceil>q\<rceil>)"

fun py_int :: "pyfloat \<Rightarrow> error + int" where
  "py_int (Fin q) = Inr (trunc q)"
| "py_int NaN = Inl ValueError"
| "py_int _ = Inl OverflowError"

text \<open>
  \<^verbatim>\<open>f ** 2\<close> on a float. The interpreter answers the special cases itself (a zero, a one,
  an infinity, \<^verbatim>\<open>nan\<close>), takes the absolute value of a negative base and calls the function
  \<^verbatim>\<open>pow\<close> of the platform's C library for the rest; an infinite result of \<^verbatim>\<open>pow\<close> becomes
  \<^verbatim>\<open>OverflowError\<close>. The library function is not part of the program, and it need not be
  correctly rounded. It is a parameter of the model: \<open>pw a\<close> is the value of
  \<^verbatim>\<open>pow(a, 2.0)\<close> for a finite \<open>a > 0\<close>. \<open>pow_rounded\<close> is the \<^verbatim>\<open>pow\<close> of a library that
  rounds correctly.
\<close>

fun fpow2 :: "(rat \<Rightarrow> pyfloat) \<Rightarrow> pyfloat \<Rightarrow> error + pyfloat" where
  "fpow2 pw (Fin a) =
     (if a = 0 then Inr (Fin 0) else if \<bar>a\<bar> = 1 then Inr (Fin 1)
      else (case pw \<bar>a\<bar> of Fin b \<Rightarrow> Inr (Fin b) | NaN \<Rightarrow> Inr NaN | _ \<Rightarrow> Inl OverflowError))"
| "fpow2 pw NaN = Inr NaN"
| "fpow2 pw _ = Inr PInf"

definition pow_rounded :: "rat \<Rightarrow> pyfloat" where
  "pow_rounded a = rnd (a * a)"

text \<open>
  \<^verbatim>\<open>math.sqrt\<close>: the correctly rounded square root. \<open>isqrt n\<close> is the integer square root,
  \<open>rnd_sqrt x\<close> the binary64 number nearest to the square root of \<open>x > 0\<close>: with \<open>u\<close> the
  unit in the last place of the root, \<open>n = \<lfloor>sqrt x / u\<rfloor>\<close> and the root is rounded up when
  \<open>x / u\<^sup>2\<close> exceeds \<open>(n + 1/2)\<^sup>2\<close>.
\<close>

function isqrt :: "int \<Rightarrow> int" where
  "isqrt n = (if n \<le> 0 then 0
              else let r = 2 * isqrt (n div 4) in if (r + 1) * (r + 1) \<le> n then r + 1 else r)"
  by pat_completeness auto
termination
  by (relation "measure nat") auto

definition rnd_sqrt :: "rat \<Rightarrow> rat" where
  "rnd_sqrt x = (let u = 2 powi (ilog2 x div 2 - 52);
                     y = x / (u * u);
                     n = isqrt \<lfloor>y\<rfloor>;
                     h = (of_int n + 1 / 2) * (of_int n + 1 / 2);
                     m = (if y < h then n else if h < y then n + 1 else if even n then n else n + 1)
                 in of_int m * u)"

fun fsqrt :: "pyfloat \<Rightarrow> error + pyfloat" where
  "fsqrt (Fin a) = (if a < 0 then Inl ValueError
                    else if a = 0 then Inr (Fin 0) else Inr (Fin (rnd_sqrt a)))"
| "fsqrt PInf = Inr PInf"
| "fsqrt NInf = Inl ValueError"
| "fsqrt NaN = Inr NaN"


section \<open>Geometry helpers\<close>

text \<open>
  \<^verbatim>\<open>distance_to_corner(x, y, width, height, radius)\<close>. \<open>wr\<close> and \<open>hr\<close> are the values
  of \<^verbatim>\<open>width - radius - 1\<close> and \<^verbatim>\<open>height - radius - 1\<close>, which the source computes
  when it builds \<^verbatim>\<open>corners\<close> and again, with the same result, in each test of the loop.
\<close>

definition corner_value :: "pyfloat \<Rightarrow> pyfloat \<Rightarrow> pyfloat" where
  "corner_value dst radius = fsub dst (fsub radius (Fin (3 / 2)))"

definition corner_dist_to :: "(rat \<Rightarrow> pyfloat) \<Rightarrow> int \<Rightarrow> int \<Rightarrow> pyfloat \<Rightarrow> pyfloat \<Rightarrow> error + pyfloat" where
  "corner_dist_to pw x y cx cy =
     and_then (to_float x) (\<lambda>fx. and_then (fpow2 pw (fsub fx cx)) (\<lambda>dx2.
     and_then (to_float y) (\<lambda>fy. and_then (fpow2 pw (fsub fy cy)) (\<lambda>dy2.
       fsqrt (fadd dx2 dy2)))))"

definition in_corner :: "int \<Rightarrow> pyfloat \<Rightarrow> pyfloat \<Rightarrow> pyfloat \<Rightarrow> bool" where
  "in_corner x radius wr cx \<longleftrightarrow>
     (flt (exact x) radius \<and> feq cx radius) \<or> (fgt (exact x) wr \<and> feq cx wr)"

fun corner_loop ::
  "(rat \<Rightarrow> pyfloat) \<Rightarrow> int \<Rightarrow> int \<Rightarrow> pyfloat \<Rightarrow> pyfloat \<Rightarrow> pyfloat \<Rightarrow> (pyfloat \<times> pyfloat) list \<Rightarrow> error + pyfloat"
where
  "corner_loop pw x y radius wr hr [] = Inr (Fin 0)"
| "corner_loop pw x y radius wr hr ((cx, cy) # cs) =
     (if in_corner x radius wr cx \<and> in_corner y radius hr cy then
        and_then (corner_dist_to pw x y cx cy) (\<lambda>dst.
          if fgt dst radius then Inr (Fin 1)
          else if fgt dst (fsub radius (Fin (3 / 2))) then
            fdiv (corner_value dst radius) (Fin (3 / 2))
          else corner_loop pw x y radius wr hr cs)
      else corner_loop pw x y radius wr hr cs)"

definition distance_to_corner :: "(rat \<Rightarrow> pyfloat) \<Rightarrow> int \<Rightarrow> int \<Rightarrow> int \<Rightarrow> int \<Rightarrow> pyfloat \<Rightarrow> error + pyfloat" where
  "distance_to_corner pw x y width height radius =
     and_then (to_float width) (\<lambda>fw. and_then (to_float height) (\<lambda>fh.
       let wr = fsub (fsub fw radius) (Fin 1);
           hr = fsub (fsub fh radius) (Fin 1)
       in corner_loop pw x y radius wr hr [(radius, radius), (wr, radius), (radius, hr), (wr, hr)]))"

text \<open>\<^verbatim>\<open>get_shadow_factor(y, height, max_darkening)\<close>; the literal \<^verbatim>\<open>0.7\<close> is \<open>rnd (7/10)\<close>.\<close>

definition shadow_start_of :: "int \<Rightarrow> error + int" where
  "shadow_start_of height = and_then (to_float height) (\<lambda>fh. py_int (fmul fh (rnd (7 / 10))))"

definition get_shadow_factor :: "int \<Rightarrow> int \<Rightarrow> pyfloat \<Rightarrow> error + pyfloat" where
  "get_shadow_factor y height max_darkening =
     and_then (shadow_start_of height) (\<lambda>shadow_start.
       if y < shadow_start then Inr (Fin 1)
       else and_then (int_truediv (y - shadow_start) (height - shadow_start)) (\<lambda>progress.
         Inr (fsub (Fin 1) (fmul progress max_darkening))))"


section \<open>Pixel transformer\<close>

text \<open>
  The body of the two nested loops of \<^verbatim>\<open>apply_modifications\<close> for the pixel \<open>(x, y)\<close>,
  on the working copy \<open>modified\<close>. The four reads and the writes are at
  \<open>idx .. idx + 3\<close> with \<open>idx = (y * width + x) * 4\<close>, which the length check keeps
  inside the list (lemma \<open>pixel_index_in_range\<close>).
\<close>

definition pixel_index :: "int \<Rightarrow> nat \<Rightarrow> nat \<Rightarrow> nat" where
  "pixel_index width y x = nat ((int y * width + int x) * 4)"

definition scale_channel :: "int \<Rightarrow> pyfloat \<Rightarrow> error + int" where
  "scale_channel c f = and_then (to_float c) (\<lambda>fc. py_int (fmul fc f))"

definition pixel_body ::
  "(rat \<Rightarrow> pyfloat) \<Rightarrow> int \<Rightarrow> int \<Rightarrow> pyfloat \<Rightarrow> pyfloat \<Rightarrow> nat \<Rightarrow> nat \<Rightarrow> int list \<Rightarrow> error + int list"
where
  "pixel_body pw width height radius max_shadow y x modified =
     (let idx = pixel_index width y x;
          b = modified ! idx;
          g = modified ! (idx + 1);
          r = modified ! (idx + 2);
          a = modified ! (idx + 3)
      in and_then (distance_to_corner pw (int x) (int y) width height radius) (\<lambda>corner_dist.
           if fge corner_dist (Fin 1) then
             Inr (modified[idx := 0, idx + 1 := 0, idx + 2 := 0, idx + 3 := 0])
           else if fgt corner_dist (exact 0) then
             and_then (scale_channel a (fsub (Fin 1) corner_dist)) (\<lambda>new_alpha.
               Inr (modified[idx + 3 := new_alpha]))
           else
             and_then (get_shadow_factor (int y) height max_shadow) (\<lambda>shadow_factor.
               if flt shadow_factor (Fin 1) then
                 and_then (scale_channel b shadow_factor) (\<lambda>nb.
                 and_then (scale_channel g shadow_factor) (\<lambda>ng.
                 and_then (scale_channel r shadow_factor) (\<lambda>nr.
                   Inr (modified[idx := nb, idx + 1 := ng, idx + 2 := nr]))))
               else Inr modified)))"

definition transform_loop ::
  "(rat \<Rightarrow> pyfloat) \<Rightarrow> int \<Rightarrow> int \<Rightarrow> pyfloat \<Rightarrow> pyfloat \<Rightarrow> int list \<Rightarrow> error + int list"
where
  "transform_loop pw width height radius max_shadow modified =
     for_each (\<lambda>y. for_each (\<lambda>x. pixel_body pw width height radius max_shadow y x) [0..<nat width])
       [0..<nat height] modified"

definition apply_modifications ::
  "(rat \<Rightarrow> pyfloat) \<Rightarrow> int list \<Rightarrow> int \<Rightarrow> int \<Rightarrow> pyfloat \<Rightarrow> pyfloat \<Rightarrow> error + int list"
where
  "apply_modifications pw pixels width height radius max_shadow =
     (if int (length pixels) \<noteq> width * height * 4 then Inl DimensionError
      else transform_loop pw width height radius max_shadow pixels)"

text \<open>
  The same function on an explicit store of lists, an address being an index of the store.
  \<^verbatim>\<open>modified[i] = v\<close> is a write to the list at the address that \<^verbatim>\<open>modified\<close> holds,
  \<^verbatim>\<open>modified[i]\<close> a read from it, and \<^verbatim>\<open>modified = list(pixels)\<close> allocates a new list at the
  end of the store. Every statement returns the store it leaves, also when it raises (the
  second component is then the exception), so that what a caller could see afterwards is part
  of the result. In the shadow branch the three channels are written one after the other, each
  before the next one is computed, as in the source.
\<close>

definition store_write :: "int list list \<Rightarrow> nat \<Rightarrow> nat \<Rightarrow> int \<Rightarrow> int list list" where
  "store_write st a i v = st[a := (st ! a)[i := v]]"

fun for_each_st :: "('a \<Rightarrow> 's \<Rightarrow> 's \<times> error option) \<Rightarrow> 'a list \<Rightarrow> 's \<Rightarrow> 's \<times> error option" where
  "for_each_st f [] st = (st, None)"
| "for_each_st f (x # xs) st =
     (case f x st of (st', None) \<Rightarrow> for_each_st f xs st' | (st', Some e) \<Rightarrow> (st', Some e))"

definition pixel_body_st ::
  "(rat \<Rightarrow> pyfloat) \<Rightarrow> int \<Rightarrow> int \<Rightarrow> pyfloat \<Rightarrow> pyfloat \<Rightarrow> nat \<Rightarrow> nat \<Rightarrow> nat \<Rightarrow> int list list
     \<Rightarrow> int list list \<times> error option"
where
  "pixel_body_st pw width height radius max_shadow modified y x st =
     (let idx = pixel_index width y x;
          b = st ! modified ! idx;
          g = st ! modified ! (idx + 1);
          r = st ! modified ! (idx + 2);
          a = st ! modified ! (idx + 3)
      in case distance_to_corner pw (int x) (int y) width height radius of
           Inl e \<Rightarrow> (st, Some e)
         | Inr corner_dist \<Rightarrow>
             if fge corner_dist (Fin 1) then
               (store_write (store_write (store_write (store_write st modified idx 0) modified (idx + 1) 0)
                               modified (idx + 2) 0) modified (idx + 3) 0, None)
             else if fgt corner_dist (exact 0) then
               (case scale_channel a (fsub (Fin 1) corner_dist) of
                  Inl e \<Rightarrow> (st, Some e)
                | Inr new_alpha \<Rightarrow> (store_write st modified (idx + 3) new_alpha, None))
             else
               (case get_shadow_factor (int y) height max_shadow of
                  Inl e \<Rightarrow> (st, Some e)
                | Inr shadow_factor \<Rightarrow>
                    if flt shadow_factor (Fin 1) then
                      (case scale_channel b shadow_factor of
                         Inl e \<Rightarrow> (st, Some e)
                       | Inr nb \<Rightarrow>
                           (let st1 = store_write st modified idx nb
                            in case scale_channel g shadow_factor of
                                 Inl e \<Rightarrow> (st1, Some e)
                               | Inr ng \<Rightarrow>
                                   (let st2 = store_write st1 modified (idx + 1) ng
                                    in case scale_channel r shadow_factor of
                                         Inl e \<Rightarrow> (st2, Some e)
                                       | Inr nr \<Rightarrow> (store_write st2 modified (idx + 2) nr, None))))
                    else (st, None)))"

definition transform_loop_st ::
  "(rat \<Rightarrow> pyfloat) \<Rightarrow> int \<Rightarrow> int \<Rightarrow> pyfloat \<Rightarrow> pyfloat \<Rightarrow> nat \<Rightarrow> int list list
     \<Rightarrow> int list list \<times> error option"
where
  "transform_loop_st pw width height radius max_shadow modified st =
     for_each_st
       (\<lambda>y. for_each_st (\<lambda>x. pixel_body_st pw width height radius max_shadow modified y x)
              [0..<nat width])
       [0..<nat height] st"

definition apply_modifications_st ::
  "(rat \<Rightarrow> pyfloat) \<Rightarrow> int list list \<Rightarrow> nat \<Rightarrow> int \<Rightarrow> int \<Rightarrow> pyfloat \<Rightarrow> pyfloat \<Rightarrow> int list list \<times> (error + nat)"
where
  "apply_modifications_st pw st pixels width height radius max_shadow =
     (if int (length (st ! pixels)) \<noteq> width * height * 4 then (st, Inl DimensionError)
      else let modified = length st;
               st1 = st @ [st ! pixels]
           in case transform_loop_st pw width height radius max_shadow modified st1 of
                (st2, Some e) \<Rightarrow> (st2, Inl e)
              | (st2, None) \<Rightarrow> (st2, Inr modified))"


section \<open>Extractor and serializer\<close>

text \<open>
  File text is a list of characters. The regular expression of \<^verbatim>\<open>parse_c_file\<close>,
  \<^verbatim>\<open>uint8_t\s+([a-zA-Z0-9_]+)\[\]\s*=\s*\{([^}]+)\}\<close>, and the one of \<^verbatim>\<open>format_output\<close>,
  \<^verbatim>\<open>(uint8_t\s+[a-zA-Z0-9_]+\[\]\s*=\s*\{)[^}]+(\})\<close>, describe the same texts and differ
  in their groups only. Every repetition in them is greedy and is followed by a character
  outside the repeated class, so the matcher never backtracks into a repetition: at a given
  position the longest run is the only one that can lead to a match. \<open>many1\<close> and \<open>many\<close>
  are \<^verbatim>\<open>+\<close> and \<^verbatim>\<open>*\<close> read this way, \<open>lit\<close> a literal; each returns the text left after
  what it consumed.

  \<open>is_space\<close> is \<^verbatim>\<open>\s\<close> on the characters below 256, \<open>is_word\<close> is \<^verbatim>\<open>[a-zA-Z0-9_]\<close>,
  \<open>is_xdigit\<close> is \<^verbatim>\<open>[0-9a-fA-F]\<close>.
\<close>

definition is_space :: "char \<Rightarrow> bool" where
  "is_space c = (let n = (of_char c :: nat)
                 in (9 \<le> n \<and> n \<le> 13) \<or> (28 \<le> n \<and> n \<le> 32) \<or> n = 133 \<or> n = 160)"

definition is_word :: "char \<Rightarrow> bool" where
  "is_word c = (let n = (of_char c :: nat)
                in (97 \<le> n \<and> n \<le> 122) \<or> (65 \<le> n \<and> n \<le> 90) \<or> (48 \<le> n \<and> n \<le> 57) \<or> n = 95)"

definition is_xdigit :: "char \<Rightarrow> bool" where
  "is_xdigit c = (let n = (of_char c :: nat)
                  in (48 \<le> n \<and> n \<le> 57) \<or> (97 \<le> n \<and> n \<le> 102) \<or> (65 \<le> n \<and> n \<le> 70))"

definition lit :: "string \<Rightarrow> string \<Rightarrow> string option" where
  "lit s t = (if take (length s) t = s then Some (drop (length s) t) else None)"

definition many1 :: "(char \<Rightarrow> bool) \<Rightarrow> string \<Rightarrow> string option" where
  "many1 P t = (if takeWhile P t = [] then None else Some (dropWhile P t))"

definition many :: "(char \<Rightarrow> bool) \<Rightarrow> string \<Rightarrow> string option" where
  "many P t = Some (dropWhile P t)"

text \<open>The part of the pattern up to the opening brace: \<^verbatim>\<open>uint8_t\s+[a-zA-Z0-9_]+\[\]\s*=\s*\{\<close>.\<close>

definition header :: "string \<Rightarrow> string option" where
  "header t =
     Option.bind (lit ''uint8_t'' t) (\<lambda>t.
     Option.bind (many1 is_space t) (\<lambda>t.
     Option.bind (many1 is_word t) (\<lambda>t.
     Option.bind (lit ''[]'' t) (\<lambda>t.
     Option.bind (many is_space t) (\<lambda>t.
     Option.bind (lit ''='' t) (\<lambda>t.
     Option.bind (many is_space t) (lit ''{'')))))))"

text \<open>
  A match of the whole pattern at the start of \<open>t\<close>, as the two offsets \<open>(e1, e2)\<close>: the
  text up to the opening brace is \<open>t[0:e1]\<close>, the body \<^verbatim>\<open>[^}]+\<close> is \<open>t[e1:e2]\<close>, the closing
  brace is \<open>t[e2]\<close> and the match ends at \<open>e2 + 1\<close>.
\<close>

definition match_at :: "string \<Rightarrow> (nat \<times> nat) option" where
  "match_at t =
     Option.bind (header t) (\<lambda>t1.
     Option.bind (many1 (\<lambda>c. c \<noteq> CHR ''}'') t1) (\<lambda>t2.
     Option.bind (lit ''}'' t2) (\<lambda>t3.
       Some (length t - length t1, length t - length t2))))"

text \<open>
  \<^verbatim>\<open>re.search\<close>: the match at the first position that has one, as \<open>(s, e1, e2)\<close> with \<open>s\<close>
  the position and \<open>e1\<close>, \<open>e2\<close> the offsets from there.
\<close>

fun re_search :: "string \<Rightarrow> (nat \<times> nat \<times> nat) option" where
  "re_search [] = map_option (\<lambda>(e1, e2). (0, e1, e2)) (match_at [])"
| "re_search (c # cs) =
     (case match_at (c # cs) of
        Some (e1, e2) \<Rightarrow> Some (0, e1, e2)
      | None \<Rightarrow> map_option (\<lambda>(s, e1, e2). (Suc s, e1, e2)) (re_search cs))"

text \<open>
  \<^verbatim>\<open>re.sub\<close> with the replacement \<^verbatim>\<open>\1\<close> \<open>mid\<close> \<^verbatim>\<open>\2\<close> and no \<^verbatim>\<open>count\<close>: the text is scanned
  from left to right, every match is replaced, and the scan goes on behind the match.
\<close>

function re_sub :: "string \<Rightarrow> string \<Rightarrow> string" where
  "re_sub mid [] = []"
| "re_sub mid (c # cs) =
     (case match_at (c # cs) of
        Some (e1, e2) \<Rightarrow>
          take e1 (c # cs) @ mid @ take 1 (drop e2 (c # cs)) @ re_sub mid (drop (Suc e2) (c # cs))
      | None \<Rightarrow> c # re_sub mid cs)"
  by pat_completeness auto
termination
  by (relation "measure (\<lambda>(mid, t). length t)") auto

text \<open>\<^verbatim>\<open>re.findall(r'0x[0-9a-fA-F]{2}', data_str)\<close> and \<^verbatim>\<open>int(h, 16)\<close> on what it finds.\<close>

fun findall_hex :: "string \<Rightarrow> string list" where
  "findall_hex (a # b # c # d # t) =
     (if a = CHR ''0'' \<and> b = CHR ''x'' \<and> is_xdigit c \<and> is_xdigit d
      then [a, b, c, d] # findall_hex t
      else findall_hex (b # c # d # t))"
| "findall_hex t = []"

definition xdigit_value :: "char \<Rightarrow> int" where
  "xdigit_value c = (let n = (of_char c :: nat)
                     in if n \<le> 57 then int n - 48 else if 97 \<le> n then int n - 87 else int n - 55)"

definition int_hex :: "string \<Rightarrow> int" where
  "int_hex h = foldl (\<lambda>v c. 16 * v + xdigit_value c) 0 (drop 2 h)"

text \<open>
  \<^verbatim>\<open>parse_c_file\<close>, on the text read from the file: the values, the text and the name of
  the array.
\<close>

definition parse_c_file :: "string \<Rightarrow> error + (int list \<times> string \<times> string)" where
  "parse_c_file content =
     (case re_search content of
        None \<Rightarrow> Inl FormatError
      | Some (s, e1, e2) \<Rightarrow>
          let var_name = takeWhile is_word (dropWhile is_space (drop (s + 7) content));
              data_str = take (e2 - e1) (drop (s + e1) content);
              hex_values = findall_hex data_str
          in Inr (map int_hex hex_values, content, var_name))"

text \<open>
  \<^verbatim>\<open>f"{b:02x}"\<close> on an \<^verbatim>\<open>int\<close>: lower-case hexadecimal digits, padded with a zero to two
  characters, the sign of a negative number counting as one.
\<close>

definition hex_digit :: "nat \<Rightarrow> char" where
  "hex_digit d = (if d < 10 then char_of (48 + d) else char_of (87 + d))"

fun hex :: "nat \<Rightarrow> string" where
  "hex n = (if n < 16 then [hex_digit n] else hex (n div 16) @ [hex_digit (n mod 16)])"

definition format_02x :: "int \<Rightarrow> string" where
  "format_02x b = (if b < 0 then CHR ''-'' # hex (nat (- b))
                   else if b < 16 then CHR ''0'' # hex (nat b) else hex (nat b))"

definition format_pixel :: "int \<Rightarrow> int \<Rightarrow> int \<Rightarrow> int \<Rightarrow> string" where
  "format_pixel b g r a =
     ''0x'' @ format_02x b @ '', 0x'' @ format_02x g @ '', 0x'' @ format_02x r @ '', 0x'' @ format_02x a"

fun join :: "string \<Rightarrow> string list \<Rightarrow> string" where
  "join sep [] = []"
| "join sep [x] = x"
| "join sep (x # y # ys) = x @ sep @ join sep (y # ys)"

definition format_line :: "string list \<Rightarrow> string" where
  "format_line line_pixels = ''  '' @ join '', '' line_pixels @ '',''"

text \<open>
  The body of the loop of \<^verbatim>\<open>format_output\<close> for the index \<open>i\<close>, on the state
  \<open>(lines, line_pixels)\<close>. \<^verbatim>\<open>(i // 4) % width\<close> raises when \<open>width\<close> is zero, and unpacking
  \<^verbatim>\<open>pixels[i:i+4]\<close> raises when the slice has fewer than four elements.
\<close>

definition format_step ::
  "int list \<Rightarrow> int \<Rightarrow> nat \<Rightarrow> string list \<times> string list \<Rightarrow> error + (string list \<times> string list)"
where
  "format_step pixels width i = (\<lambda>(lines, line_pixels).
     and_then
       (if 0 < i then
          (if width = 0 then Inl ZeroDivisionError
           else if (int i div 4) mod width = 0 then Inr (lines @ [format_line line_pixels], [])
           else Inr (lines, line_pixels))
        else Inr (lines, line_pixels))
       (\<lambda>(lines, line_pixels).
          case take 4 (drop i pixels) of
            [b, g, r, a] \<Rightarrow> Inr (lines, line_pixels @ [format_pixel b g r a])
          | _ \<Rightarrow> Inl ValueError))"

text \<open>The text that replaces the body of the array: \<^verbatim>\<open>'\n' + array_content + '\n'\<close>.\<close>

definition array_body :: "int list \<Rightarrow> int \<Rightarrow> error + string" where
  "array_body pixels width =
     and_then (for_each (format_step pixels width)
                 (map (\<lambda>k. 4 * k) [0..<(length pixels + 3) div 4]) ([], []))
       (\<lambda>(lines, line_pixels).
          let lines = (if line_pixels \<noteq> [] then lines @ [format_line line_pixels] else lines);
              array_content = join [CHR 0x0A] lines
          in Inr ([CHR 0x0A] @ array_content @ [CHR 0x0A]))"

definition format_output :: "int list \<Rightarrow> string \<Rightarrow> int \<Rightarrow> error + string" where
  "format_output pixels original_content width =
     and_then (array_body pixels width) (\<lambda>body. Inr (re_sub body original_content))"


text \<open>
  A notion for the proofs about \<^verbatim>\<open>re.findall\<close>: a text is a token text when the search on
  it followed by any other text is the search on it, followed by the search on the other
  text, and when it has no closing brace.
\<close>

definition token_text :: "string \<Rightarrow> bool" where
  "token_text u \<longleftrightarrow>
     (\<forall>rest. findall_hex (u @ rest) = findall_hex u @ findall_hex rest) \<and> CHR ''}'' \<notin> set u"


section \<open>Basic facts\<close>

lemma and_then_simps [simp]:
  "and_then (Inl e) f = Inl e"
  "and_then (Inr v) f = f v"
  by (simp_all add: and_then_def)

lemma and_then_InrD:
  "and_then m f = Inr r \<Longrightarrow> \<exists>v. m = Inr v \<and> f v = Inr r"
  by (cases m) simp_all

lemma for_each_append:
  "for_each f (xs @ ys) s = and_then (for_each f xs s) (for_each f ys)"
proof (induction xs arbitrary: s)
  case Nil
  show ?case by simp
next
  case (Cons x xs)
  show ?case
  proof (cases "f x s")
    case (Inl e)
    then show ?thesis by simp
  next
    case (Inr s')
    then show ?thesis using Cons.IH [of s'] by simp
  qed
qed

lemma for_each_invariant:
  assumes step: "\<And>x s s'. x \<in> set xs \<Longrightarrow> P s \<Longrightarrow> f x s = Inr s' \<Longrightarrow> P s'"
    and "P s" and "for_each f xs s = Inr s'"
  shows "P s'"
  using assms
proof (induction xs arbitrary: s)
  case Nil
  then show ?case by simp
next
  case (Cons x xs)
  from Cons.prems(3) obtain s1 where s1: "f x s = Inr s1" and rest: "for_each f xs s1 = Inr s'"
    by (auto dest: and_then_InrD)
  have "P s1" using Cons.prems(1) [of x s s1] Cons.prems(2) s1 by simp
  show ?case
  proof (rule Cons.IH [of s1])
    show "P s'" if "x' \<in> set xs" "P s" "f x' s = Inr s'" for x' s s'
      using Cons.prems(1) [of x' s s'] that by simp
  qed (use \<open>P s1\<close> rest in simp_all)
qed

lemma pixel_body_length:
  assumes "pixel_body pw width height radius max_shadow y x m = Inr m'"
  shows "length m' = length m"
  using assms unfolding pixel_body_def Let_def
  by (auto dest!: and_then_InrD split: if_splits)

lemma transform_loop_length:
  assumes "transform_loop pw width height radius max_shadow m = Inr m'"
  shows "length m' = length m"
proof -
  have row: "length s' = length m"
    if "length s = length m"
      and "for_each (\<lambda>x. pixel_body pw width height radius max_shadow y x) xs s = Inr s'"
    for y xs s s'
    using for_each_invariant
      [where P = "\<lambda>s. length s = length m"
         and f = "\<lambda>x. pixel_body pw width height radius max_shadow y x", OF _ that]
    by (simp add: pixel_body_length)
  show ?thesis
    using for_each_invariant
      [where P = "\<lambda>s. length s = length m"
         and f = "\<lambda>y. for_each (\<lambda>x. pixel_body pw width height radius max_shadow y x) [0..<nat width]"
         and xs = "[0..<nat height]" and s = m and s' = m']
      row assms
    unfolding transform_loop_def by blast
qed


section \<open>Rounding facts\<close>

lemma powi_nat: "0 \<le> n \<Longrightarrow> (2::rat) powi n = 2 ^ nat n"
  by (simp add: power_int_def)

lemma ilog2_bounds:
  assumes "x \<noteq> 0"
  shows "2 powi (ilog2 x) \<le> \<bar>x\<bar> \<and> \<bar>x\<bar> < 2 powi (ilog2 x + 1)"
proof -
  obtain p q where pq: "quotient_of \<bar>x\<bar> = (p, q)" by (cases "quotient_of \<bar>x\<bar>")
  have q: "0 < q" using pq quotient_of_denom_pos by blast
  have xe: "\<bar>x\<bar> = of_int p / of_int q" using pq quotient_of_div by blast
  have p: "0 < p"
  proof -
    have "0 < \<bar>x\<bar>" using assms by simp
    then have "0 < (of_int p :: rat) / of_int q" using xe by simp
    then show ?thesis using q by (simp add: zero_less_divide_iff)
  qed
  define bp where "bp = bitlen p"
  define bq where "bq = bitlen q"
  have bp: "2 ^ nat (bp - 1) \<le> p" "p < 2 ^ nat bp" using bitlen_bounds [OF p] by (simp_all add: bp_def)
  have bq: "2 ^ nat (bq - 1) \<le> q" "q < 2 ^ nat bq" using bitlen_bounds [OF q] by (simp_all add: bq_def)
  have bp1: "1 \<le> bp" using p by (auto simp: bp_def bitlen_alt_def)
  have bq1: "1 \<le> bq" using q by (auto simp: bq_def bitlen_alt_def)
  have P1: "(2::rat) powi (bp - 1) \<le> of_int p"
  proof -
    have "(of_int (2 ^ nat (bp - 1)) :: rat) \<le> of_int p" using bp(1) by (simp only: of_int_le_iff)
    then show ?thesis using bp1 by (simp add: powi_nat)
  qed
  have P2: "of_int p < (2::rat) powi bp"
  proof -
    have "(of_int p :: rat) < of_int (2 ^ nat bp)" using bp(2) by (simp only: of_int_less_iff)
    then show ?thesis using bp1 by (simp add: powi_nat)
  qed
  have Q1: "(2::rat) powi (bq - 1) \<le> of_int q"
  proof -
    have "(of_int (2 ^ nat (bq - 1)) :: rat) \<le> of_int q" using bq(1) by (simp only: of_int_le_iff)
    then show ?thesis using bq1 by (simp add: powi_nat)
  qed
  have Q2: "of_int q < (2::rat) powi bq"
  proof -
    have "(of_int q :: rat) < of_int (2 ^ nat bq)" using bq(2) by (simp only: of_int_less_iff)
    then show ?thesis using bq1 by (simp add: powi_nat)
  qed
  have qpos: "(0::rat) < of_int q" using q by simp
  have up: "\<bar>x\<bar> < 2 powi (bp - bq + 1)"
  proof -
    have "of_int p < (2::rat) powi (bp - bq + 1) * 2 powi (bq - 1)"
      using P2 by (simp add: power_int_add [symmetric])
    also have "\<dots> \<le> 2 powi (bp - bq + 1) * of_int q"
      using Q1 by (simp add: mult_left_mono)
    finally show ?thesis using qpos by (simp add: xe pos_divide_less_eq)
  qed
  have lo: "2 powi (bp - bq - 1) < \<bar>x\<bar>"
  proof -
    have "(2::rat) powi (bp - bq - 1) * of_int q < 2 powi (bp - bq - 1) * 2 powi bq"
      using Q2 by (simp add: mult_strict_left_mono)
    also have "\<dots> = 2 powi (bp - 1)" by (simp add: power_int_add [symmetric])
    also have "\<dots> \<le> of_int p" by (rule P1)
    finally show ?thesis using qpos by (simp add: xe pos_less_divide_eq)
  qed
  show ?thesis
  proof (cases "2 powi (bp - bq) \<le> \<bar>x\<bar>")
    case True
    then have "ilog2 x = bp - bq" by (simp add: ilog2_def pq bp_def bq_def)
    then show ?thesis using True up by simp
  next
    case False
    then have "ilog2 x = bp - bq - 1" by (simp add: ilog2_def pq bp_def bq_def)
    then show ?thesis using False lo by simp
  qed
qed

lemma powi_mono2: "a \<le> b \<Longrightarrow> (2::rat) powi a \<le> 2 powi b"
  by (rule power_int_increasing) simp_all

lemma powi_less_cancel2: "(2::rat) powi a < 2 powi b \<Longrightarrow> a < b"
  using powi_mono2 [of b a] by (cases "a < b") simp_all

lemma powi_pos2 [simp]: "(0::rat) < 2 powi a"
  by (simp add: zero_less_power_int)

lemma ilog2_eqI:
  assumes "2 powi e \<le> \<bar>x\<bar>" and "\<bar>x\<bar> < 2 powi (e + 1)"
  shows "ilog2 x = e"
proof -
  have "0 < \<bar>x\<bar>" by (rule less_le_trans [OF powi_pos2 assms(1)])
  then have "x \<noteq> 0" by simp
  then have b: "2 powi (ilog2 x) \<le> \<bar>x\<bar>" "\<bar>x\<bar> < 2 powi (ilog2 x + 1)"
    using ilog2_bounds by blast+
  have "(2::rat) powi e < 2 powi (ilog2 x + 1)" using assms(1) b(2) by simp
  then have 1: "e < ilog2 x + 1" by (rule powi_less_cancel2)
  have "(2::rat) powi (ilog2 x) < 2 powi (e + 1)" using assms(2) b(1) by simp
  then have 2: "ilog2 x < e + 1" by (rule powi_less_cancel2)
  show ?thesis using 1 2 by simp
qed

lemma round_half_even_le: "x \<le> of_int k \<Longrightarrow> round_half_even x \<le> k"
proof -
  assume a: "x \<le> of_int k"
  show ?thesis
  proof (cases "x = of_int k")
    case True
    then show ?thesis by (simp add: round_half_even_def)
  next
    case False
    then have "x < of_int k" using a by simp
    then have "\<lfloor>x\<rfloor> < k" by (simp add: floor_less_iff)
    then show ?thesis by (simp add: round_half_even_def Let_def)
  qed
qed

lemma round_half_even_ge: "of_int k \<le> x \<Longrightarrow> k \<le> round_half_even x"
proof -
  assume a: "of_int k \<le> x"
  then have "k \<le> \<lfloor>x\<rfloor>" by (simp add: le_floor_iff)
  then show ?thesis by (simp add: round_half_even_def Let_def)
qed

lemma round_half_even_int [simp]: "round_half_even (of_int k) = k"
  by (simp add: round_half_even_def)

lemma round_half_even_close:
  "of_int (round_half_even x) \<le> x + 1 / 2" "x - 1 / 2 \<le> of_int (round_half_even x)"
proof -
  define f where "f = \<lfloor>x\<rfloor>"
  define d where "d = x - of_int f"
  have x: "x = of_int f + d" by (simp add: d_def)
  have d: "0 \<le> d" "d < 1" unfolding d_def f_def by linarith+
  have r: "round_half_even x = (if d < 1 / 2 then f else if 1 / 2 < d then f + 1
                                 else if even f then f else f + 1)"
    by (simp add: round_half_even_def Let_def f_def d_def)
  have a: "x + 1 / 2 = of_int f + d + 1 / 2" "x - 1 / 2 = of_int f + d - 1 / 2"
    by (simp_all add: d_def)
  show "of_int (round_half_even x) \<le> x + 1 / 2"
    unfolding r a using d by auto
  show "x - 1 / 2 \<le> of_int (round_half_even x)"
    unfolding r a using d by auto
qed

text \<open>A double that is not below \<open>2^e\<close> in magnitude is a multiple of \<open>2^(e - 52)\<close>.\<close>

lemma double_multiple:
  assumes "is_double r" and "2 powi e \<le> \<bar>r\<bar> \<or> e = - 1022"
  shows "\<exists>k. r = of_int k * 2 powi (e - 52)"
proof -
  obtain m ex where r: "r = of_int m * 2 powi ex" and m: "\<bar>m\<bar> < 2 ^ 53" and ex: "- 1074 \<le> ex"
    using assms(1) unfolding is_double_def by blast
  have "e - 52 \<le> ex"
  proof (cases "e = - 1022")
    case True
    then show ?thesis using ex by simp
  next
    case False
    then have ge: "2 powi e \<le> \<bar>r\<bar>" using assms(2) by simp
    have "\<bar>r\<bar> = of_int \<bar>m\<bar> * 2 powi ex" by (simp add: r abs_mult)
    also have "\<dots> < 2 ^ 53 * 2 powi ex"
    proof -
      have "(of_int \<bar>m\<bar> :: rat) < of_int (2 ^ 53)" using m by (simp only: of_int_less_iff)
      then show ?thesis by (simp add: mult_strict_right_mono)
    qed
    also have "\<dots> = 2 powi (53 + ex)" by (simp add: power_int_add)
    finally have "(2::rat) powi e < 2 powi (53 + ex)" using ge by simp
    then have "e < 53 + ex" by (rule powi_less_cancel2)
    then show ?thesis by simp
  qed
  then obtain d where d: "ex = (e - 52) + int d" by (metis zle_iff_zadd)
  have "r = of_int (m * 2 ^ d) * 2 powi (e - 52)"
    by (simp add: r d power_int_add mult.commute mult.left_commute)
  then show ?thesis by blast
qed

lemma rnd_fin_unfold:
  assumes "x \<noteq> 0"
  shows "rnd_fin x = of_int (round_half_even (x / 2 powi (max (ilog2 x) (- 1022) - 52)))
           * 2 powi (max (ilog2 x) (- 1022) - 52)"
  using assms by (simp add: rnd_fin_def ulp_def)

lemma rnd_fin_le:
  assumes r: "is_double r" and xr: "x \<le> r"
  shows "rnd_fin x \<le> r"
proof (cases "x = 0")
  case True
  then show ?thesis using xr by (simp add: rnd_fin_def)
next
  case False
  define e where "e = max (ilog2 x) (- 1022)"
  define u :: rat where "u = 2 powi (e - 52)"
  define n where "n = round_half_even (x / u)"
  have u: "0 < u" by (simp add: u_def)
  have rf: "rnd_fin x = of_int n * u" using False by (simp add: rnd_fin_unfold n_def u_def e_def)
  have b: "2 powi (ilog2 x) \<le> \<bar>x\<bar>" using ilog2_bounds [OF False] by blast
  show ?thesis
  proof (cases "2 powi e \<le> \<bar>r\<bar> \<or> e = - 1022")
    case True
    then obtain k where k: "r = of_int k * u" using double_multiple [OF r] u_def by blast
    have "x / u \<le> of_int k" using xr u by (simp add: k pos_divide_le_eq)
    then have "n \<le> k" unfolding n_def by (rule round_half_even_le)
    then have "(of_int n :: rat) \<le> of_int k" by simp
    then show ?thesis using u by (simp add: rf k mult_right_mono)
  next
    case False
    then have small: "\<bar>r\<bar> < 2 powi e" and e: "e = ilog2 x" by (auto simp: e_def)
    have xneg: "x \<le> - (2 powi e)"
    proof (rule ccontr)
      assume "\<not> x \<le> - (2 powi e)"
      then have "0 \<le> x" using b e by (auto simp: abs_if split: if_splits)
      then have "2 powi e \<le> r" using b e xr by simp
      then show False using small by simp
    qed
    have "x / u \<le> (- (2 powi e)) / u" by (intro divide_right_mono xneg less_imp_le u)
    also have "(- (2 powi e)) / u = of_int (- (2 ^ 52))"
      by (simp add: u_def power_int_diff)
    finally have "n \<le> - (2 ^ 52)" unfolding n_def by (rule round_half_even_le)
    then have "(of_int n :: rat) \<le> of_int (- (2 ^ 52))" by (simp only: of_int_le_iff)
    then have "of_int n * u \<le> of_int (- (2 ^ 52)) * u" using u by (simp only: mult_right_mono less_imp_le)
    also have "of_int (- (2 ^ 52)) * u = - (2 powi e)" by (simp add: u_def power_int_diff)
    finally show ?thesis using small by (simp add: rf)
  qed
qed

lemma rnd_fin_ge:
  assumes r: "is_double r" and xr: "r \<le> x"
  shows "r \<le> rnd_fin x"
proof (cases "x = 0")
  case True
  then show ?thesis using xr by (simp add: rnd_fin_def)
next
  case False
  define e where "e = max (ilog2 x) (- 1022)"
  define u :: rat where "u = 2 powi (e - 52)"
  define n where "n = round_half_even (x / u)"
  have u: "0 < u" by (simp add: u_def)
  have rf: "rnd_fin x = of_int n * u" using False by (simp add: rnd_fin_unfold n_def u_def e_def)
  have b: "2 powi (ilog2 x) \<le> \<bar>x\<bar>" using ilog2_bounds [OF False] by blast
  show ?thesis
  proof (cases "2 powi e \<le> \<bar>r\<bar> \<or> e = - 1022")
    case True
    then obtain k where k: "r = of_int k * u" using double_multiple [OF r] u_def by blast
    have "of_int k \<le> x / u" using xr u by (simp add: k pos_le_divide_eq)
    then have "k \<le> n" unfolding n_def by (rule round_half_even_ge)
    then have "(of_int k :: rat) \<le> of_int n" by simp
    then show ?thesis using u by (simp add: rf k mult_right_mono)
  next
    case False
    then have small: "\<bar>r\<bar> < 2 powi e" and e: "e = ilog2 x" by (auto simp: e_def)
    have xpos: "2 powi e \<le> x"
    proof (rule ccontr)
      assume "\<not> 2 powi e \<le> x"
      then have "x \<le> 0" using b e by (auto simp: abs_if split: if_splits)
      then have "2 powi e \<le> - r" using b e xr by simp
      then show False using small by simp
    qed
    have "(2 powi e) / u \<le> x / u" by (intro divide_right_mono xpos less_imp_le u)
    moreover have "(2 powi e) / u = of_int (2 ^ 52)"
      by (simp add: u_def power_int_diff)
    ultimately have "of_int (2 ^ 52) \<le> x / u" by simp
    then have "2 ^ 52 \<le> n" unfolding n_def by (rule round_half_even_ge)
    then have "(of_int (2 ^ 52) :: rat) \<le> of_int n" by (simp only: of_int_le_iff)
    then have "of_int (2 ^ 52) * u \<le> of_int n * u" using u by (simp only: mult_right_mono less_imp_le)
    moreover have "of_int (2 ^ 52) * u = 2 powi e" by (simp add: u_def power_int_diff)
    ultimately show ?thesis using small by (simp add: rf)
  qed
qed

lemma rnd_fin_exact: "is_double x \<Longrightarrow> rnd_fin x = x"
  using rnd_fin_le [of x x] rnd_fin_ge [of x x] by simp

lemma double_bound:
  assumes "is_double r"
  shows "\<bar>r\<bar> < 2 ^ 1024"
proof -
  obtain m ex where r: "r = of_int m * 2 powi ex" and m: "\<bar>m\<bar> < 2 ^ 53" and ex: "ex \<le> 971"
    using assms unfolding is_double_def by blast
  have "\<bar>r\<bar> = of_int \<bar>m\<bar> * 2 powi ex" by (simp add: r abs_mult)
  also have "\<dots> < 2 ^ 53 * 2 powi ex"
  proof -
    have "(of_int \<bar>m\<bar> :: rat) < of_int (2 ^ 53)" using m by (simp only: of_int_less_iff)
    then show ?thesis by (simp add: mult_strict_right_mono)
  qed
  also have "\<dots> \<le> 2 ^ 53 * 2 powi 971" using powi_mono2 [OF ex] by simp
  also have "\<dots> = 2 ^ 1024" by simp
  finally show ?thesis .
qed

lemma rnd_between:
  assumes "is_double lo" "is_double hi" "lo \<le> x" "x \<le> hi"
  shows "\<exists>q. rnd x = Fin q \<and> lo \<le> q \<and> q \<le> hi"
proof -
  have 1: "lo \<le> rnd_fin x" "rnd_fin x \<le> hi"
    using assms rnd_fin_ge rnd_fin_le by blast+
  have "\<bar>lo\<bar> < 2 ^ 1024" "\<bar>hi\<bar> < 2 ^ 1024" using assms double_bound by blast+
  then have "\<not> 2 ^ 1024 \<le> rnd_fin x" "\<not> rnd_fin x \<le> - (2 ^ 1024)" using 1 by linarith+
  then have "rnd x = Fin (rnd_fin x)" by (simp add: rnd_def Let_def)
  then show ?thesis using 1 by simp
qed

lemma rnd_exact: "is_double x \<Longrightarrow> rnd x = Fin x"
  using rnd_between [of x x x] by auto

lemma is_double_dyadic:
  "\<bar>m\<bar> < 2 ^ 53 \<Longrightarrow> - 1074 \<le> e \<Longrightarrow> e \<le> 971 \<Longrightarrow> is_double (of_int m * 2 powi e)"
  unfolding is_double_def by blast

lemma is_double_int: "\<bar>m\<bar> < 2 ^ 53 \<Longrightarrow> is_double (of_int m)"
  using is_double_dyadic [of m 0] by simp

lemma is_double_0 [simp]: "is_double 0" using is_double_int [of 0] by simp
lemma is_double_1 [simp]: "is_double 1" using is_double_int [of 1] by simp

lemma is_double_numeral: "numeral k < (2::int) ^ 53 \<Longrightarrow> is_double (numeral k)"
  using is_double_int [of "numeral k"] by simp

lemma is_double_frac:
  "\<bar>m\<bar> < 2 ^ 53 \<Longrightarrow> k \<le> 1074 \<Longrightarrow> is_double (of_int m / 2 ^ k)"
  using is_double_dyadic [of m "- int k"] by (simp add: power_int_minus field_simps)


declare isqrt.simps [simp del]

lemma isqrt_bounds: "0 \<le> n \<Longrightarrow> 0 \<le> isqrt n \<and> isqrt n * isqrt n \<le> n \<and> n < (isqrt n + 1) * (isqrt n + 1)"
proof (induction n rule: isqrt.induct)
  case (1 n)
  show ?case
  proof (cases "n \<le> 0")
    case True
    then have "n = 0" using "1.prems" by simp
    then show ?thesis by (simp add: isqrt.simps)
  next
    case False
    define r where "r = 2 * isqrt (n div 4)"
    have ih: "0 \<le> isqrt (n div 4)" "isqrt (n div 4) * isqrt (n div 4) \<le> n div 4"
      "n div 4 < (isqrt (n div 4) + 1) * (isqrt (n div 4) + 1)"
      using "1.IH" [OF False] "1.prems" by simp_all
    have r0: "0 \<le> r" using ih(1) by (simp add: r_def)
    have "r * r = 4 * (isqrt (n div 4) * isqrt (n div 4))" by (simp add: r_def)
    also have "\<dots> \<le> 4 * (n div 4)" using ih(2) by simp
    also have "\<dots> \<le> n" by simp
    finally have lo: "r * r \<le> n" .
    have "n div 4 + 1 \<le> (isqrt (n div 4) + 1) * (isqrt (n div 4) + 1)" using ih(3) by simp
    then have "4 * (n div 4) + 4 \<le> 4 * ((isqrt (n div 4) + 1) * (isqrt (n div 4) + 1))" by simp
    also have "\<dots> = (r + 2) * (r + 2)" by (simp add: r_def algebra_simps)
    finally have "4 * (n div 4) + 4 \<le> (r + 2) * (r + 2)" .
    moreover have "n < 4 * (n div 4) + 4" by simp
    ultimately have hi: "n < (r + 2) * (r + 2)" by simp
    have e: "isqrt n = (if (r + 1) * (r + 1) \<le> n then r + 1 else r)"
      using False by (subst isqrt.simps) (simp add: r_def Let_def)
    show ?thesis
    proof (cases "(r + 1) * (r + 1) \<le> n")
      case True
      then show ?thesis using e r0 hi by (simp add: algebra_simps)
    next
      case False
      then show ?thesis using e r0 lo by simp
    qed
  qed
qed

lemma isqrt_ge: "0 \<le> k \<Longrightarrow> k * k \<le> n \<Longrightarrow> k \<le> isqrt n"
proof (rule ccontr)
  assume k: "0 \<le> k" "k * k \<le> n" and "\<not> k \<le> isqrt n"
  then have 1: "isqrt n + 1 \<le> k" by simp
  have n0: "0 \<le> n" using k by (meson mult_nonneg_nonneg order_trans)
  have 2: "0 \<le> isqrt n + 1" using isqrt_bounds [OF n0] by simp
  have "(isqrt n + 1) * (isqrt n + 1) \<le> k * k" using 1 2 by (intro mult_mono) simp_all
  then show False using isqrt_bounds [OF n0] k by simp
qed

lemma isqrt_le: "0 \<le> k \<Longrightarrow> 0 \<le> n \<Longrightarrow> n \<le> k * k \<Longrightarrow> isqrt n \<le> k"
proof (rule ccontr)
  assume k: "0 \<le> k" "0 \<le> n" "n \<le> k * k" and "\<not> isqrt n \<le> k"
  then have 1: "k + 1 \<le> isqrt n" by simp
  have "(k + 1) * (k + 1) \<le> isqrt n * isqrt n" using 1 k by (intro mult_mono) simp_all
  then have "(k + 1) * (k + 1) \<le> n" using isqrt_bounds [OF k(2)] by simp
  then show False using k by (simp add: algebra_simps)
qed

lemma rnd_sqrt_unfold:
  fixes x :: rat
  defines "u \<equiv> 2 powi (ilog2 x div 2 - 52)"
  defines "y \<equiv> x / (u * u)"
  defines "n \<equiv> isqrt \<lfloor>y\<rfloor>"
  shows "rnd_sqrt x = of_int (if y < (of_int n + 1 / 2) * (of_int n + 1 / 2) then n
           else if (of_int n + 1 / 2) * (of_int n + 1 / 2) < y then n + 1
           else if even n then n else n + 1) * u"
  by (simp add: rnd_sqrt_def Let_def u_def y_def n_def)

lemma rnd_sqrt_facts:
  fixes x :: rat
  assumes x: "0 < x"
  defines "es \<equiv> ilog2 x div 2"
  defines "u \<equiv> 2 powi (es - 52)"
  defines "y \<equiv> x / (u * u)"
  defines "n \<equiv> isqrt \<lfloor>y\<rfloor>"
  shows "2 powi es * 2 powi es \<le> x" and "2 ^ 52 \<le> n" and "0 \<le> y"
    and "\<exists>m. rnd_sqrt x = of_int m * u \<and> n \<le> m \<and> m \<le> n + 1 \<and> (y < (of_int n + 1 / 2) * (of_int n + 1 / 2) \<longrightarrow> m = n)"
proof -
  have u: "0 < u" by (simp add: u_def)
  have b: "2 powi (ilog2 x) \<le> x" using ilog2_bounds [of x] x by simp
  have "2 * es \<le> ilog2 x" by (simp add: es_def)
  then have "(2::rat) powi (2 * es) \<le> 2 powi (ilog2 x)" by (rule powi_mono2)
  moreover have "(2::rat) powi (2 * es) = 2 powi es * 2 powi es"
    by (simp add: power_int_add [symmetric])
  ultimately show 1: "2 powi es * 2 powi es \<le> x" using b by simp
  have uu: "u * u = 2 powi es * 2 powi es / 2 ^ 104"
    by (simp add: u_def power_int_diff)
  have "2 ^ 104 * (u * u) \<le> x" using 1 by (simp add: uu)
  then have y104: "2 ^ 104 \<le> y" using u by (simp add: y_def pos_le_divide_eq)
  then show y0: "0 \<le> y" by simp
  have "(of_int (2 ^ 52 * 2 ^ 52) :: rat) \<le> y" using y104 by simp
  then have "(2 ^ 52 * 2 ^ 52 :: int) \<le> \<lfloor>y\<rfloor>" by (simp only: le_floor_iff)
  then show "2 ^ 52 \<le> n" unfolding n_def by (intro isqrt_ge) simp_all
  show "\<exists>m. rnd_sqrt x = of_int m * u \<and> n \<le> m \<and> m \<le> n + 1 \<and> (y < (of_int n + 1 / 2) * (of_int n + 1 / 2) \<longrightarrow> m = n)"
    unfolding rnd_sqrt_unfold [of x] n_def y_def u_def es_def by auto
qed

lemma rnd_sqrt_ge:
  assumes lo: "is_double lo" "0 \<le> lo" and x: "0 < x" and le: "lo * lo \<le> x"
  shows "lo \<le> rnd_sqrt x"
proof -
  define es where "es = ilog2 x div 2"
  define u :: rat where "u = 2 powi (es - 52)"
  define y where "y = x / (u * u)"
  define n where "n = isqrt \<lfloor>y\<rfloor>"
  have u: "0 < u" by (simp add: u_def)
  note f = rnd_sqrt_facts [OF x, folded es_def, folded u_def, folded y_def, folded n_def]
  obtain m where m: "rnd_sqrt x = of_int m * u" "n \<le> m" using f(4) by blast
  show ?thesis
  proof (cases "2 powi es \<le> \<bar>lo\<bar>")
    case True
    then obtain k where k: "lo = of_int k * u" using double_multiple [OF lo(1), of es] u_def by blast
    have k0: "0 \<le> k" using lo(2) u by (simp add: k zero_le_mult_iff)
    have "of_int (k * k) * (u * u) \<le> x" using le by (simp add: k algebra_simps)
    then have "of_int (k * k) \<le> y" using u by (simp add: y_def pos_le_divide_eq)
    then have "k * k \<le> \<lfloor>y\<rfloor>" by (simp only: le_floor_iff)
    then have "k \<le> n" unfolding n_def using k0 by (intro isqrt_ge)
    then have "(of_int k :: rat) \<le> of_int m" using m(2) by simp
    then show ?thesis using u by (simp add: m k mult_right_mono)
  next
    case False
    then have "lo < 2 powi es" using lo(2) by simp
    also have "2 powi es = of_int (2 ^ 52) * u" by (simp add: u_def power_int_diff)
    also have "\<dots> \<le> of_int m * u"
    proof -
      have "(of_int (2 ^ 52) :: rat) \<le> of_int m" using f(2) m(2) by (simp only: of_int_le_iff)
      then show ?thesis using u by (simp only: mult_right_mono less_imp_le)
    qed
    finally show ?thesis by (simp add: m)
  qed
qed

lemma rnd_sqrt_le:
  assumes hi: "is_double hi" "0 \<le> hi" and x: "0 < x" and le: "x \<le> hi * hi"
  shows "rnd_sqrt x \<le> hi"
proof -
  define es where "es = ilog2 x div 2"
  define u :: rat where "u = 2 powi (es - 52)"
  define y where "y = x / (u * u)"
  define n where "n = isqrt \<lfloor>y\<rfloor>"
  have u: "0 < u" by (simp add: u_def)
  note f = rnd_sqrt_facts [OF x, folded es_def, folded u_def, folded y_def, folded n_def]
  obtain m where m: "rnd_sqrt x = of_int m * u" "m \<le> n + 1"
    "y < (of_int n + 1 / 2) * (of_int n + 1 / 2) \<longrightarrow> m = n" using f(4) by blast
  have big: "2 powi es \<le> \<bar>hi\<bar>"
  proof (rule ccontr)
    assume "\<not> 2 powi es \<le> \<bar>hi\<bar>"
    then have "hi < 2 powi es" using hi(2) by simp
    then have "hi * hi < 2 powi es * 2 powi es"
      using hi(2) by (intro mult_strict_mono') simp_all
    then show False using f(1) le by simp
  qed
  obtain k where k: "hi = of_int k * u" using double_multiple [OF hi(1), of es] big u_def by blast
  have k0: "0 \<le> k" using hi(2) u by (simp add: k zero_le_mult_iff)
  have "x \<le> of_int (k * k) * (u * u)" using le by (simp add: k algebra_simps)
  then have yk: "y \<le> of_int (k * k)" using u by (simp add: y_def pos_divide_le_eq)
  then have "\<lfloor>y\<rfloor> \<le> k * k" by (simp add: floor_le_iff)
  moreover have "0 \<le> \<lfloor>y\<rfloor>" using f(3) by simp
  ultimately have nk: "n \<le> k" unfolding n_def using k0 by (intro isqrt_le)
  have "m \<le> k"
  proof (cases "n = k")
    case True
    have n0: "(0::rat) \<le> of_int n" using f(2) by simp
    have "y \<le> of_int n * of_int n" using yk True by simp
    also have "\<dots> < (of_int n + 1 / 2) * (of_int n + 1 / 2)" using n0 by (simp add: algebra_simps)
    finally have "m = n" using m(3) by simp
    then show ?thesis using True by simp
  next
    case False
    then show ?thesis using nk m(2) by simp
  qed
  then have "(of_int m :: rat) \<le> of_int k" by simp
  then show ?thesis using u by (simp add: m k mult_right_mono)
qed


text \<open>Rounding picks a nearest binary64 number, gives a binary64 number, and is monotone.\<close>

lemma nearest_int: "\<bar>z - of_int (round_half_even z)\<bar> \<le> \<bar>z - of_int k\<bar>"
proof (cases "k = round_half_even z")
  case True
  then show ?thesis by simp
next
  case False
  define r where "r = round_half_even z"
  have c: "of_int r \<le> z + 1 / 2" "z - 1 / 2 \<le> of_int r"
    unfolding r_def by (rule round_half_even_close)+
  have "k \<le> r - 1 \<or> r + 1 \<le> k" using False by (auto simp: r_def)
  then have "(of_int k :: rat) \<le> of_int r - 1 \<or> (of_int r :: rat) + 1 \<le> of_int k"
    by (metis of_int_1 of_int_add of_int_diff of_int_le_iff)
  then show ?thesis using c unfolding r_def [symmetric] by (auto simp: abs_if)
qed

lemma rnd_fin_nearest:
  assumes d: "is_double d"
  shows "\<bar>x - rnd_fin x\<bar> \<le> \<bar>x - d\<bar>"
proof (cases "x = 0")
  case True
  then show ?thesis by (simp add: rnd_fin_def)
next
  case False
  define e where "e = max (ilog2 x) (- 1022)"
  define u :: rat where "u = 2 powi (e - 52)"
  define n where "n = round_half_even (x / u)"
  have u: "0 < u" by (simp add: u_def)
  have rf: "rnd_fin x = of_int n * u" using False by (simp add: rnd_fin_unfold n_def u_def e_def)
  have b: "2 powi (ilog2 x) \<le> \<bar>x\<bar>" using ilog2_bounds [OF False] by blast
  have grid: "\<bar>x - of_int n * u\<bar> \<le> \<bar>x - of_int k * u\<bar>" for k
  proof -
    have "\<bar>x / u - of_int n\<bar> \<le> \<bar>x / u - of_int k\<bar>" unfolding n_def by (rule nearest_int)
    then have "\<bar>x / u - of_int n\<bar> * u \<le> \<bar>x / u - of_int k\<bar> * u"
      using u by (simp only: mult_right_mono less_imp_le)
    moreover have "\<bar>x / u - of_int j\<bar> * u = \<bar>x - of_int j * u\<bar>" for j
    proof -
      have "\<bar>x / u - of_int j\<bar> * u = \<bar>(x / u - of_int j) * u\<bar>" using u by (simp add: abs_mult)
      also have "(x / u - of_int j) * u = x - of_int j * u" using u by (simp add: field_simps)
      finally show ?thesis .
    qed
    ultimately show ?thesis by simp
  qed
  show ?thesis
  proof (cases "2 powi e \<le> \<bar>d\<bar> \<or> e = - 1022")
    case True
    then obtain k where k: "d = of_int k * u" using double_multiple [OF d] u_def by blast
    show ?thesis unfolding rf k by (rule grid)
  next
    case False
    then have small: "\<bar>d\<bar> < 2 powi e" and e: "e = ilog2 x" by (auto simp: e_def)
    have p: "2 powi e = of_int (2 ^ 52) * u" by (simp add: u_def power_int_diff)
    show ?thesis
    proof (cases "0 \<le> x")
      case True
      then have "2 powi e \<le> x" using b e by simp
      then have "\<bar>x - of_int (2 ^ 52) * u\<bar> \<le> \<bar>x - d\<bar>" using small unfolding p [symmetric] by simp
      then show ?thesis using grid [of "2 ^ 52"] unfolding rf by simp
    next
      case False
      then have "x \<le> - (2 powi e)" using b e by simp
      moreover have "- (2 powi e) = of_int (- (2 ^ 52)) * u" by (simp add: p)
      ultimately have "\<bar>x - of_int (- (2 ^ 52)) * u\<bar> \<le> \<bar>x - d\<bar>" using small by simp
      then show ?thesis using grid [of "- (2 ^ 52)"] unfolding rf by simp
    qed
  qed
qed

lemma rnd_fin_double:
  assumes fin: "\<bar>rnd_fin x\<bar> < 2 ^ 1024"
  shows "is_double (rnd_fin x)"
proof (cases "x = 0")
  case True
  then show ?thesis by (simp add: rnd_fin_def)
next
  case False
  define e where "e = max (ilog2 x) (- 1022)"
  define u :: rat where "u = 2 powi (e - 52)"
  define n where "n = round_half_even (x / u)"
  have u: "0 < u" by (simp add: u_def)
  have rf: "rnd_fin x = of_int n * u" using False by (simp add: rnd_fin_unfold n_def u_def e_def)
  have b: "2 powi (ilog2 x) \<le> \<bar>x\<bar>" "\<bar>x\<bar> < 2 powi (ilog2 x + 1)"
    using ilog2_bounds [OF False] by blast+
  have e_lo: "- 1022 \<le> e" by (simp add: e_def)
  have "\<bar>x\<bar> < 2 powi (e + 1)"
  proof -
    have "ilog2 x + 1 \<le> e + 1" by (simp add: e_def)
    then have "(2::rat) powi (ilog2 x + 1) \<le> 2 powi (e + 1)" by (rule powi_mono2)
    then show ?thesis using b(2) by simp
  qed
  also have "(2::rat) powi (e + 1) = of_int (2 ^ 53) * u" by (simp add: u_def power_int_diff power_int_add)
  finally have xu: "\<bar>x\<bar> < of_int (2 ^ 53) * u" .
  have "x / u \<le> of_int (2 ^ 53)" using xu u by (simp add: pos_divide_le_eq abs_if split: if_splits)
  then have n_hi: "n \<le> 2 ^ 53" unfolding n_def by (rule round_half_even_le)
  have "of_int (- (2 ^ 53)) \<le> x / u" using xu u by (simp add: pos_le_divide_eq abs_if split: if_splits)
  then have n_lo: "- (2 ^ 53) \<le> n" unfolding n_def by (rule round_half_even_ge)
  have absrf: "\<bar>rnd_fin x\<bar> = of_int \<bar>n\<bar> * u" using u by (simp add: rf abs_mult)
  show ?thesis
  proof (cases "\<bar>n\<bar> < 2 ^ 53")
    case True
    have "e \<le> 1023"
    proof (rule ccontr)
      assume "\<not> e \<le> 1023"
      then have big: "1024 \<le> e" and ee: "e = ilog2 x" by (auto simp: e_def max_def split: if_splits)
      have p: "2 powi e = of_int (2 ^ 52) * u" by (simp add: u_def power_int_diff)
      have "2 ^ 52 \<le> \<bar>n\<bar>"
      proof (cases "0 \<le> x")
        case True
        then have "of_int (2 ^ 52) * u \<le> x" using b(1) ee p by simp
        then have "of_int (2 ^ 52) \<le> x / u" using u by (simp add: pos_le_divide_eq)
        then have "2 ^ 52 \<le> n" unfolding n_def by (rule round_half_even_ge)
        then show ?thesis by simp
      next
        case False
        then have "x \<le> of_int (- (2 ^ 52)) * u" using b(1) ee p by simp
        then have "x / u \<le> of_int (- (2 ^ 52))" using u by (simp add: pos_divide_le_eq)
        then have "n \<le> - (2 ^ 52)" unfolding n_def by (rule round_half_even_le)
        then show ?thesis by simp
      qed
      then have "(of_int (2 ^ 52) :: rat) \<le> of_int \<bar>n\<bar>" by (simp only: of_int_le_iff)
      then have "of_int (2 ^ 52) * u \<le> of_int \<bar>n\<bar> * u" using u by (simp only: mult_right_mono less_imp_le)
      then have "2 powi e \<le> \<bar>rnd_fin x\<bar>" by (simp only: p absrf)
      moreover have "(2::rat) powi 1024 \<le> 2 powi e" using big by (rule powi_mono2)
      ultimately show False using fin by simp
    qed
    then show ?thesis unfolding rf u_def using True e_lo by (intro is_double_dyadic) simp_all
  next
    case False
    then have n: "\<bar>n\<bar> = 2 ^ 53" using n_hi n_lo by simp
    have "\<bar>rnd_fin x\<bar> = 2 powi (e + 1)"
      by (simp add: absrf n u_def power_int_diff power_int_add)
    then have "(2::rat) powi (e + 1) < 2 powi 1024" using fin by simp
    then have "e + 1 < 1024" by (rule powi_less_cancel2)
    then have e_hi: "e \<le> 1022" by simp
    have "n = 2 ^ 53 \<or> n = - (2 ^ 53)" using n by (simp add: abs_if split: if_splits)
    then have "rnd_fin x = of_int (n div 2) * 2 powi (e - 51)"
      by (auto simp: rf u_def power_int_diff)
    moreover have "\<bar>n div 2\<bar> < 2 ^ 53" using \<open>n = 2 ^ 53 \<or> n = - (2 ^ 53)\<close> by auto
    ultimately show ?thesis using e_lo e_hi by (simp add: is_double_dyadic)
  qed
qed

lemma rnd_fin_mono:
  assumes xy: "x \<le> y" and fx: "\<bar>rnd_fin x\<bar> < 2 ^ 1024" and fy: "\<bar>rnd_fin y\<bar> < 2 ^ 1024"
  shows "rnd_fin x \<le> rnd_fin y"
proof (rule ccontr)
  assume "\<not> rnd_fin x \<le> rnd_fin y"
  then have ba: "rnd_fin y < rnd_fin x" by simp
  have da: "is_double (rnd_fin x)" using fx by (rule rnd_fin_double)
  have db: "is_double (rnd_fin y)" using fy by (rule rnd_fin_double)
  have 1: "y < rnd_fin x" using rnd_fin_ge [OF da, of y] ba by (cases "rnd_fin x \<le> y") simp_all
  have 2: "rnd_fin y < x" using rnd_fin_le [OF db, of x] ba by (cases "x \<le> rnd_fin y") simp_all
  have "\<bar>x - rnd_fin x\<bar> \<le> \<bar>x - rnd_fin y\<bar>" using db by (rule rnd_fin_nearest)
  moreover have "\<bar>y - rnd_fin y\<bar> \<le> \<bar>y - rnd_fin x\<bar>" using da by (rule rnd_fin_nearest)
  ultimately have "x = y" using 1 2 xy by (simp add: abs_if split: if_splits)
  then show False using ba by simp
qed


section \<open>Pixels are transformed independently\<close>

lemma for_each_split:
  assumes "for_each f (pre @ k # post) s = Inr s'"
  obtains s1 s2 where "for_each f pre s = Inr s1" "f k s1 = Inr s2" "for_each f post s2 = Inr s'"
proof -
  from assms obtain s1 where 1: "for_each f pre s = Inr s1" and r: "for_each f (k # post) s1 = Inr s'"
    unfolding for_each_append by (auto dest: and_then_InrD)
  from r obtain s2 where 2: "f k s1 = Inr s2" and 3: "for_each f post s2 = Inr s'"
    by (auto dest: and_then_InrD)
  show ?thesis using that 1 2 3 by blast
qed

lemma for_each_frame:
  assumes "\<And>k s s'. k \<in> set ks \<Longrightarrow> f k s = Inr s' \<Longrightarrow> s' ! j = s ! j"
    and "for_each f ks s = Inr s'"
  shows "s' ! j = s ! (j::nat)"
  using for_each_invariant [where P = "\<lambda>t. t ! j = s ! j" and f = f and xs = ks and s = s and s' = s']
    assms by simp

lemma pixel_index_nat: "0 \<le> w \<Longrightarrow> pixel_index w y x = 4 * (y * nat w + x)"
proof -
  assume "0 \<le> w"
  then obtain W where w: "w = int W" using nonneg_int_cases by blast
  have "(int y * int W + int x) * 4 = int (4 * (y * W + x))" by simp
  then show ?thesis unfolding pixel_index_def w by (simp only: nat_int)
qed

lemma idx_sep:
  fixes W :: nat
  assumes "x < W" "x' < W" "(y', x') \<noteq> (y, x)"
  shows "4 * (y * W + x) + 4 \<le> 4 * (y' * W + x') \<or> 4 * (y' * W + x') + 4 \<le> 4 * (y * W + x)"
proof -
  consider "y' < y" | "y < y'" | "y' = y" "x' < x" | "y' = y" "x < x'"
    using assms(3) by (metis linorder_neqE_nat prod.inject)
  then show ?thesis
  proof cases
    case 1
    then have "Suc y' * W \<le> y * W" by (intro mult_le_mono1) simp
    then show ?thesis using assms(2) by simp
  next
    case 2
    then have "Suc y * W \<le> y' * W" by (intro mult_le_mono1) simp
    then show ?thesis using assms(1) by simp
  next
    case 3
    then show ?thesis by simp
  next
    case 4
    then show ?thesis by simp
  qed
qed

lemma upt_split: "i < n \<Longrightarrow> [0..<n] = [0..<i] @ i # [Suc i..<n]"
proof -
  assume i: "i < n"
  have "[0..<n] = [0..<i] @ [i..<n]" using upt_add_eq_append [of 0 i "n - i"] i by simp
  then show ?thesis using i by (simp add: upt_conv_Cons)
qed

lemma pixel_body_frame:
  assumes "pixel_body pw width height radius max_shadow y x m = Inr m'"
    and "j < pixel_index width y x \<or> pixel_index width y x + 4 \<le> j"
  shows "m' ! j = m ! j"
  using assms unfolding pixel_body_def Let_def
  by (auto dest!: and_then_InrD split: if_splits)

lemma for_each_length:
  assumes "\<And>k s s'. k \<in> set ks \<Longrightarrow> f k s = Inr s' \<Longrightarrow> length s' = length s"
    and "for_each f ks s = Inr s'"
  shows "length s' = length (s :: 'b list)"
  using for_each_invariant [where P = "\<lambda>t. length t = length s" and f = f and xs = ks and s = s and s' = s']
    assms by simp

lemma pixel_index_in_range:
  assumes len: "int (length pixels) = width * height * 4"
    and x: "x < nat width" and y: "y < nat height"
  shows "pixel_index width y x + 4 \<le> length pixels"
proof -
  have w0: "0 \<le> width" and h0: "0 \<le> height" using x y by simp_all
  have "int (length pixels) = int (nat width * nat height * 4)" using len w0 h0 by simp
  then have l: "length pixels = nat width * nat height * 4" by (simp only: of_nat_eq_iff)
  have "y * nat width + x + 1 \<le> Suc y * nat width" using x by simp
  also have "\<dots> \<le> nat height * nat width" using y by (intro mult_le_mono1) simp
  also have "\<dots> = nat width * nat height" by (rule mult.commute)
  finally have "4 * (y * nat width + x + 1) \<le> 4 * (nat width * nat height)" by (rule mult_le_mono2)
  then show ?thesis unfolding pixel_index_nat [OF w0] l by simp
qed

text \<open>
  The pixel \<open>(x, y)\<close> is transformed by one run of the loop body: on a working copy that
  still holds the input values of this pixel, and with a result that no other run changes.
\<close>

lemma pixel_result:
  assumes run: "transform_loop pw width height radius max_shadow pixels = Inr out"
    and x: "x < nat width" and y: "y < nat height"
  obtains m m' where "pixel_body pw width height radius max_shadow y x m = Inr m'"
    and "length m = length pixels"
    and "\<And>j. pixel_index width y x \<le> j \<Longrightarrow> j < pixel_index width y x + 4 \<Longrightarrow> m ! j = pixels ! j"
    and "\<And>j. pixel_index width y x \<le> j \<Longrightarrow> j < pixel_index width y x + 4 \<Longrightarrow> out ! j = m' ! j"
proof -
  define W where "W = nat width"
  have w0: "0 \<le> width" using x by simp
  note pin = pixel_index_nat [OF w0, folded W_def]
  define row where "row = (\<lambda>y. for_each (\<lambda>x. pixel_body pw width height radius max_shadow y x) [0..<nat width])"
  have other: "s' ! j = s ! j"
    if "pixel_body pw width height radius max_shadow y' x' s = Inr s'" "x' < W" "(y', x') \<noteq> (y, x)"
      "pixel_index width y x \<le> j" "j < pixel_index width y x + 4" for y' x' s s' j
  proof -
    have "4 * (y * W + x) + 4 \<le> 4 * (y' * W + x') \<or> 4 * (y' * W + x') + 4 \<le> 4 * (y * W + x)"
      using idx_sep [of x W x' y' y] x that(2,3) by (simp add: W_def)
    then have "j < pixel_index width y' x' \<or> pixel_index width y' x' + 4 \<le> j"
      using that(4,5) unfolding pin by linarith
    then show ?thesis using pixel_body_frame [OF that(1)] by blast
  qed
  have other_row: "s' ! j = s ! j"
    if "row y' s = Inr s'" "y' \<noteq> y" "pixel_index width y x \<le> j" "j < pixel_index width y x + 4"
    for y' s s' j
    using that(1) unfolding row_def
  proof (rule for_each_frame [rotated])
    fix k t t' assume "k \<in> set [0..<nat width]" "pixel_body pw width height radius max_shadow y' k t = Inr t'"
    then show "t' ! j = t ! j" using other [of y' k t t' j] that(2,3,4) by (simp add: W_def)
  qed
  have ys: "[0..<nat height] = [0..<y] @ y # [Suc y..<nat height]"
    using y by (rule upt_split)
  have xs: "[0..<nat width] = [0..<x] @ x # [Suc x..<nat width]"
    using x by (rule upt_split)
  from run obtain s1 s2 where
    a1: "for_each row [0..<y] pixels = Inr s1" and a2: "row y s1 = Inr s2"
    and a3: "for_each row [Suc y..<nat height] s2 = Inr out"
    unfolding transform_loop_def row_def [symmetric] ys by (rule for_each_split)
  from a2 obtain t1 t2 where
    b1: "for_each (\<lambda>x. pixel_body pw width height radius max_shadow y x) [0..<x] s1 = Inr t1"
    and b2: "pixel_body pw width height radius max_shadow y x t1 = Inr t2"
    and b3: "for_each (\<lambda>x. pixel_body pw width height radius max_shadow y x) [Suc x..<nat width] t2 = Inr s2"
    unfolding row_def xs by (rule for_each_split)
  have body_len: "length s' = length s"
    if "for_each (\<lambda>x. pixel_body pw width height radius max_shadow y' x) ks s = Inr s'" for y' ks s s'
    using that by (rule for_each_length [rotated]) (rule pixel_body_length)
  have "length s1 = length pixels"
    using a1 by (rule for_each_length [rotated]) (simp add: row_def body_len)
  then have len: "length t1 = length pixels" using body_len [OF b1] by simp
  show ?thesis
  proof (rule that [OF b2 len])
    fix j assume j: "pixel_index width y x \<le> j" "j < pixel_index width y x + 4"
    have "s1 ! j = pixels ! j"
      using a1
    proof (rule for_each_frame [rotated])
      fix k s s' assume "k \<in> set [0..<y]" "row k s = Inr s'"
      then show "s' ! j = s ! j" using other_row [of k s s' j] j by simp
    qed
    moreover have "t1 ! j = s1 ! j"
      using b1
    proof (rule for_each_frame [rotated])
      fix k s s' assume "k \<in> set [0..<x]" "pixel_body pw width height radius max_shadow y k s = Inr s'"
      then show "s' ! j = s ! j" using other [of y k s s' j] j x by (simp add: W_def)
    qed
    ultimately show "t1 ! j = pixels ! j" by simp
    have "out ! j = s2 ! j"
      using a3
    proof (rule for_each_frame [rotated])
      fix k s s' assume "k \<in> set [Suc y..<nat height]" "row k s = Inr s'"
      then show "s' ! j = s ! j" using other_row [of k s s' j] j by simp
    qed
    moreover have "s2 ! j = t2 ! j"
      using b3
    proof (rule for_each_frame [rotated])
      fix k s s' assume "k \<in> set [Suc x..<nat width]" "pixel_body pw width height radius max_shadow y k s = Inr s'"
      then show "s' ! j = s ! j" using other [of y k s s' j] j by (simp add: W_def)
    qed
    ultimately show "out ! j = t2 ! j" by simp
  qed
qed

lemma apply_modifications_InrD:
  assumes "apply_modifications pw pixels width height radius max_shadow = Inr out"
  shows "int (length pixels) = width * height * 4"
    and "transform_loop pw width height radius max_shadow pixels = Inr out"
  using assms by (simp_all add: apply_modifications_def split: if_splits)

lemma pixel_body_clip:
  assumes "distance_to_corner pw (int x) (int y) width height radius = Inr d" "fge d (Fin 1)"
  shows "pixel_body pw width height radius max_shadow y x m =
    Inr (m[pixel_index width y x := 0, pixel_index width y x + 1 := 0,
           pixel_index width y x + 2 := 0, pixel_index width y x + 3 := 0])"
  using assms by (simp add: pixel_body_def Let_def)


section \<open>A run on a one-pixel image\<close>

lemma to_float_small: "\<bar>i\<bar> < 2 ^ 53 \<Longrightarrow> to_float i = Inr (Fin (of_int i))"
  by (simp add: to_float_def rnd_exact is_double_int finite_or_overflow_def)

lemma rnd_numeral: "numeral k < (2::int) ^ 53 \<Longrightarrow> rnd (numeral k) = Fin (numeral k)"
  using rnd_exact [OF is_double_int [of "numeral k"]] by simp

lemma rnd_neg_numeral: "numeral k < (2::int) ^ 53 \<Longrightarrow> rnd (- numeral k) = Fin (- numeral k)"
  using rnd_exact [OF is_double_int [of "- numeral k"]] by simp

lemma rnd_0: "rnd 0 = Fin 0" by (simp add: rnd_exact)
lemma rnd_1: "rnd 1 = Fin 1" by (simp add: rnd_exact)
lemma rnd_m1: "rnd (- 1) = Fin (- 1)" using rnd_exact [OF is_double_int [of "- 1"]] by simp

lemmas rnd_small = rnd_numeral rnd_neg_numeral rnd_0 rnd_1 rnd_m1

lemma sqrt2_gt1: "1 < rnd_sqrt 2"
proof -
  have "is_double (5 / 4)" using is_double_frac [of 5 2] by simp
  then have "5 / 4 \<le> rnd_sqrt 2" by (rule rnd_sqrt_ge) simp_all
  then show ?thesis by simp
qed

lemma dist_1x1: "distance_to_corner pow_rounded 0 0 1 1 (Fin 1) = Inr (Fin 1)"
  using sqrt2_gt1
  by (simp add: distance_to_corner_def to_float_small fsub_def rnd_small Let_def in_corner_def
      exact_def fgt_def corner_dist_to_def pow_rounded_def finite_or_overflow_def)

lemma run_1x1: "apply_modifications pow_rounded [10, 20, 30, 40] 1 1 (Fin 1) (Fin (1 / 2)) = Inr [0, 0, 0, 0]"
  using dist_1x1
  by (simp add: apply_modifications_def transform_loop_def pixel_body_def pixel_index_def fge_def)


lemma flt_FinD:
  assumes "flt (Fin a) d" "flt d (Fin b)"
  obtains q where "d = Fin q" "a < q" "q < b"
  using assms by (cases d) simp_all

lemma trunc_nonneg: "0 \<le> q \<Longrightarrow> trunc q = \<lfloor>q\<rfloor>"
  by (simp add: trunc_def)

lemma pixel_body_fade:
  assumes "distance_to_corner pw (int x) (int y) width height radius = Inr d"
    and "\<not> fge d (Fin 1)" "fgt d (exact 0)"
    and "scale_channel (m ! (pixel_index width y x + 3)) (fsub (Fin 1) d) = Inr v"
  shows "pixel_body pw width height radius max_shadow y x m = Inr (m[pixel_index width y x + 3 := v])"
  using assms by (simp add: pixel_body_def Let_def)


section \<open>A run on a two by two image\<close>

lemma sqrt8_gt2: "2 < rnd_sqrt 8"
proof -
  have "is_double (5 / 2)" using is_double_frac [of 5 1] by simp
  then have "5 / 2 \<le> rnd_sqrt 8" by (rule rnd_sqrt_ge) simp_all
  then show ?thesis by simp
qed

lemma sqrt5_gt2: "2 < rnd_sqrt 5"
proof -
  have "is_double (17 / 8)" using is_double_frac [of 17 3] by simp
  then have "17 / 8 \<le> rnd_sqrt 5" by (rule rnd_sqrt_ge) simp_all
  then show ?thesis by simp
qed

lemma sqrt2_bounds: "45 / 32 \<le> rnd_sqrt 2" "rnd_sqrt 2 \<le> 23 / 16"
proof -
  have "is_double (45 / 32)" using is_double_frac [of 45 5] by simp
  then show "45 / 32 \<le> rnd_sqrt 2" by (rule rnd_sqrt_ge) simp_all
  have "is_double (23 / 16)" using is_double_frac [of 23 4] by simp
  then show "rnd_sqrt 2 \<le> 23 / 16" by (rule rnd_sqrt_le) simp_all
qed

lemma rnd_half: "rnd (1 / 2) = Fin (1 / 2)"
  using rnd_exact [OF is_double_frac [of 1 1]] by simp

lemma dist_2x2_clipped:
  "distance_to_corner pow_rounded 0 0 2 2 (Fin 2) = Inr (Fin 1)"
  "distance_to_corner pow_rounded 1 0 2 2 (Fin 2) = Inr (Fin 1)"
  "distance_to_corner pow_rounded 0 1 2 2 (Fin 2) = Inr (Fin 1)"
  using sqrt8_gt2 sqrt5_gt2
  by (simp_all add: distance_to_corner_def to_float_small fsub_def rnd_small Let_def in_corner_def
      exact_def fgt_def corner_dist_to_def pow_rounded_def finite_or_overflow_def)

lemma dist_2x2_band:
  "\<exists>d. distance_to_corner pow_rounded 1 1 2 2 (Fin 2) = Inr (Fin d) \<and> 9 / 16 \<le> d \<and> d \<le> 5 / 8"
proof -
  define s where "s = rnd_sqrt 2"
  have s: "45 / 32 \<le> s" "s \<le> 23 / 16" using sqrt2_bounds by (simp_all add: s_def)
  have "\<exists>v. rnd (s - 1 / 2) = Fin v \<and> 29 / 32 \<le> v \<and> v \<le> 15 / 16"
    using s is_double_frac [of 29 5] is_double_frac [of 15 4] by (intro rnd_between) simp_all
  then obtain v where v: "rnd (s - 1 / 2) = Fin v" "29 / 32 \<le> v" "v \<le> 15 / 16" by (elim exE conjE)
  have "\<exists>d. rnd (v / (3 / 2)) = Fin d \<and> 9 / 16 \<le> d \<and> d \<le> 5 / 8"
    using v is_double_frac [of 9 4] is_double_frac [of 5 3] by (intro rnd_between) simp_all
  then obtain d where d: "rnd (v / (3 / 2)) = Fin d" "9 / 16 \<le> d" "d \<le> 5 / 8" by (elim exE conjE)
  have "distance_to_corner pow_rounded 1 1 2 2 (Fin 2) = Inr (Fin d)"
    using s v(1) d(1)
    by (simp add: distance_to_corner_def to_float_small fsub_def rnd_small Let_def in_corner_def
      exact_def fgt_def corner_dist_to_def pow_rounded_def finite_or_overflow_def corner_value_def rnd_half
      s_def [symmetric])
  then show ?thesis using d by blast
qed

lemma scale_8:
  assumes "9 / 16 \<le> d" "d \<le> 5 / 8"
  shows "scale_channel 8 (fsub (Fin 1) (Fin d)) = Inr 3"
proof -
  have "\<exists>q1. rnd (1 - d) = Fin q1 \<and> 3 / 8 \<le> q1 \<and> q1 \<le> 7 / 16"
    using assms is_double_frac [of 3 3] is_double_frac [of 7 4] by (intro rnd_between) simp_all
  then obtain q1 where q1: "rnd (1 - d) = Fin q1" "3 / 8 \<le> q1" "q1 \<le> 7 / 16" by (elim exE conjE)
  have "\<exists>q. rnd (8 * q1) = Fin q \<and> 3 \<le> q \<and> q \<le> 7 / 2"
    using q1 is_double_frac [of 3 0] is_double_frac [of 7 1] by (intro rnd_between) simp_all
  then obtain q where q: "rnd (8 * q1) = Fin q" "3 \<le> q" "q \<le> 7 / 2" by (elim exE conjE)
  have "\<lfloor>q\<rfloor> = 3" using q by (simp add: floor_eq_iff)
  then show ?thesis using q q1
    by (simp add: scale_channel_def to_float_small fsub_def trunc_nonneg)
qed

lemma run_2x2:
  "apply_modifications pow_rounded [1, 2, 3, 4, 5, 6, 7, 8, 9, 10, 11, 12, 20, 30, 40, 8] 2 2 (Fin 2) (Fin (1 / 2))
     = Inr [0, 0, 0, 0, 0, 0, 0, 0, 0, 0, 0, 0, 20, 30, 40, 3]"
proof -
  obtain d where d: "distance_to_corner pow_rounded 1 1 2 2 (Fin 2) = Inr (Fin d)" "9 / 16 \<le> d" "d \<le> 5 / 8"
    using dist_2x2_band by (elim exE conjE)
  have u: "[0..<2] = [0, 1::nat]" by (simp add: upt_rec)
  show ?thesis
    using dist_2x2_clipped d scale_8 [OF d(2,3)]
    by (simp add: apply_modifications_def transform_loop_def pixel_body_def pixel_index_def
        fge_def fgt_def exact_def u)
qed


section \<open>The dimension error comes from the length check only\<close>

lemma and_then_no_dim:
  assumes "m \<noteq> Inl DimensionError" "\<And>v. f v \<noteq> Inl DimensionError"
  shows "and_then m f \<noteq> Inl DimensionError"
  using assms by (cases m) simp_all

lemma finite_or_overflow_no_dim: "finite_or_overflow f \<noteq> Inl DimensionError"
  by (cases f) (simp_all add: finite_or_overflow_def)

lemma to_float_no_dim: "to_float i \<noteq> Inl DimensionError"
  by (simp add: to_float_def finite_or_overflow_no_dim)

lemma int_truediv_no_dim: "int_truediv a b \<noteq> Inl DimensionError"
  by (simp add: int_truediv_def finite_or_overflow_no_dim)

lemma py_int_no_dim: "py_int f \<noteq> Inl DimensionError"
  by (cases f) simp_all

lemma fpow2_no_dim: "fpow2 pw f \<noteq> Inl DimensionError"
  by (cases f) (auto split: pyfloat.splits)

lemma fsqrt_no_dim: "fsqrt f \<noteq> Inl DimensionError"
  by (cases f) simp_all

lemma fdiv_no_dim: "fdiv a b \<noteq> Inl DimensionError"
  by (cases a; cases b) simp_all

lemma corner_dist_to_no_dim: "corner_dist_to pw x y cx cy \<noteq> Inl DimensionError"
  unfolding corner_dist_to_def
  by (intro and_then_no_dim to_float_no_dim fpow2_no_dim fsqrt_no_dim)

lemma corner_loop_no_dim: "corner_loop pw x y radius wr hr cs \<noteq> Inl DimensionError"
proof (induction cs)
  case Nil
  show ?case by simp
next
  case (Cons c cs)
  obtain cx cy where c: "c = (cx, cy)" by (cases c)
  have "and_then (corner_dist_to pw x y cx cy) (\<lambda>dst.
          if fgt dst radius then Inr (Fin 1)
          else if fgt dst (fsub radius (Fin (3 / 2))) then
            fdiv (corner_value dst radius) (Fin (3 / 2))
          else corner_loop pw x y radius wr hr cs) \<noteq> Inl DimensionError"
    by (intro and_then_no_dim corner_dist_to_no_dim) (simp add: fdiv_no_dim Cons.IH)
  then show ?case using Cons.IH by (simp add: c)
qed

lemma distance_to_corner_no_dim: "distance_to_corner pw x y width height radius \<noteq> Inl DimensionError"
  unfolding distance_to_corner_def Let_def
  by (intro and_then_no_dim to_float_no_dim corner_loop_no_dim)

lemma shadow_start_of_no_dim: "shadow_start_of height \<noteq> Inl DimensionError"
  unfolding shadow_start_of_def by (intro and_then_no_dim to_float_no_dim py_int_no_dim)

lemma get_shadow_factor_no_dim: "get_shadow_factor y height m \<noteq> Inl DimensionError"
  unfolding get_shadow_factor_def
  by (intro and_then_no_dim shadow_start_of_no_dim) (simp add: and_then_no_dim int_truediv_no_dim)

lemma scale_channel_no_dim: "scale_channel c f \<noteq> Inl DimensionError"
  unfolding scale_channel_def by (intro and_then_no_dim to_float_no_dim py_int_no_dim)

lemma pixel_body_no_dim: "pixel_body pw width height radius max_shadow y x m \<noteq> Inl DimensionError"
  unfolding pixel_body_def Let_def
  by (intro and_then_no_dim distance_to_corner_no_dim)
     (simp add: and_then_no_dim scale_channel_no_dim get_shadow_factor_no_dim)

lemma for_each_no_dim:
  assumes "\<And>k s. f k s \<noteq> Inl DimensionError"
  shows "for_each f ks s \<noteq> Inl DimensionError"
proof (induction ks arbitrary: s)
  case Nil
  show ?case by simp
next
  case (Cons k ks)
  show ?case unfolding for_each.simps by (intro and_then_no_dim assms Cons.IH)
qed

lemma transform_loop_no_dim: "transform_loop pw width height radius max_shadow m \<noteq> Inl DimensionError"
  unfolding transform_loop_def by (intro for_each_no_dim pixel_body_no_dim)


section \<open>The shadow threshold\<close>

lemma c07: "\<exists>c. rnd (7 / 10) = Fin c \<and> 11 / 16 \<le> c \<and> c \<le> 23 / 32"
  using is_double_frac [of 11 4] is_double_frac [of 23 5] by (intro rnd_between) simp_all

lemma ilog2_nonneg: "1 \<le> \<bar>x\<bar> \<Longrightarrow> 0 \<le> ilog2 x"
proof -
  assume a: "1 \<le> \<bar>x\<bar>"
  then have "x \<noteq> 0" by auto
  then have "\<bar>x\<bar> < 2 powi (ilog2 x + 1)" using ilog2_bounds by blast
  then have "(2::rat) powi 0 < 2 powi (ilog2 x + 1)" using a by simp
  then have "0 < ilog2 x + 1" by (rule powi_less_cancel2)
  then show ?thesis by simp
qed

lemma shadow_start_bound:
  assumes h: "1 \<le> height" and s: "shadow_start_of height = Inr s"
  shows "0 \<le> s \<and> s < height"
proof -
  define x :: rat where "x = of_int height"
  define e where "e = ilog2 x"
  define u :: rat where "u = 2 powi (e - 52)"
  define hf where "hf = rnd_fin x"
  have x1: "1 \<le> x" using h by (simp add: x_def)
  then have x0: "x \<noteq> 0" by simp
  have u: "0 < u" by (simp add: u_def)
  have e0: "0 \<le> e" unfolding e_def using x1 by (intro ilog2_nonneg) simp
  have eb: "2 powi e \<le> x" "x < 2 powi (e + 1)" using ilog2_bounds [OF x0] x1 by (simp_all add: e_def)
  have ux: "u * 2 ^ 52 \<le> x" using eb(1) by (simp add: u_def power_int_diff)
  have xu: "x < u * 2 ^ 53"
  proof -
    have "(2::rat) powi (e + 1) = u * 2 ^ 53" by (simp add: u_def power_int_diff power_int_add)
    then show ?thesis using eb(2) by simp
  qed
  have hfu: "hf = of_int (round_half_even (x / u)) * u"
    using x0 e0 by (simp add: hf_def rnd_fin_unfold u_def e_def max_def)
  obtain fh where fh: "to_float height = Inr fh" and pi: "py_int (fmul fh (rnd (7 / 10))) = Inr s"
    using s unfolding shadow_start_of_def by (auto dest: and_then_InrD)
  have fin: "rnd x = Fin hf" "fh = Fin hf"
    using fh unfolding to_float_def finite_or_overflow_def x_def [symmetric]
    by (auto simp: rnd_def Let_def hf_def split: if_splits pyfloat.splits)
  have hfb: "hf < 2 ^ 1024"
    using fin(1) by (simp add: rnd_def Let_def hf_def split: if_splits)
  have hf1: "1 \<le> hf" unfolding hf_def using x1 by (intro rnd_fin_ge) simp_all
  have hf_hi: "hf \<le> x + u / 2"
  proof -
    have "of_int (round_half_even (x / u)) \<le> x / u + 1 / 2" by (rule round_half_even_close)
    then have "of_int (round_half_even (x / u)) * u \<le> (x / u + 1 / 2) * u"
      using u by (simp only: mult_right_mono less_imp_le)
    moreover have "(x / u + 1 / 2) * u = x + u / 2" using u by (simp add: field_simps)
    ultimately show ?thesis by (simp only: hfu)
  qed
  have hf_lo: "2 powi e \<le> hf"
  proof -
    have "of_int (2 ^ 52) \<le> x / u" using ux u by (simp add: pos_le_divide_eq mult.commute)
    then have "2 ^ 52 \<le> round_half_even (x / u)" by (rule round_half_even_ge)
    then have "(of_int (2 ^ 52) :: rat) \<le> of_int (round_half_even (x / u))" by (simp only: of_int_le_iff)
    then have "of_int (2 ^ 52) * u \<le> of_int (round_half_even (x / u)) * u"
      using u by (simp only: mult_right_mono less_imp_le)
    then show ?thesis by (simp add: hfu u_def power_int_diff)
  qed
  have e_hi: "e \<le> 1023"
  proof -
    have "(2::rat) powi e < 2 powi 1024" using hf_lo hfb by simp
    then have "e < 1024" by (rule powi_less_cancel2)
    then show ?thesis by simp
  qed
  obtain c where c: "rnd (7 / 10) = Fin c" "11 / 16 \<le> c" "c \<le> 23 / 32" using c07 by (elim exE conjE)
  define k where "k = \<lceil>7 * x / (8 * u)\<rceil>"
  define r2 where "r2 = of_int k * u"
  have k_ge: "7 * x / (8 * u) \<le> of_int k" by (simp add: k_def)
  have k_lt: "of_int k < 7 * x / (8 * u) + 1" unfolding k_def by linarith
  have r2_ge: "7 * x / 8 \<le> r2"
  proof -
    have "7 * x / (8 * u) * u \<le> of_int k * u" using k_ge u by (simp only: mult_right_mono less_imp_le)
    moreover have "7 * x / (8 * u) * u = 7 * x / 8" using u by (simp add: field_simps)
    ultimately show ?thesis by (simp only: r2_def)
  qed
  have r2_lt: "r2 < 7 * x / 8 + u"
  proof -
    have "of_int k * u < (7 * x / (8 * u) + 1) * u" using k_lt u by (simp only: mult_strict_right_mono)
    moreover have "(7 * x / (8 * u) + 1) * u = 7 * x / 8 + u" using u by (simp add: field_simps)
    ultimately show ?thesis by (simp only: r2_def)
  qed
  have k0: "0 \<le> k"
  proof -
    have "0 \<le> 7 * x / (8 * u)" using x1 u by simp
    then have "- 1 < 7 * x / (8 * u)" by linarith
    then show ?thesis by (simp only: k_def zero_le_ceiling)
  qed
  have k_hi: "k \<le> 7 * 2 ^ 50"
  proof -
    have "7 * x / (8 * u) \<le> of_int (7 * 2 ^ 50)"
      using xu u by (simp add: pos_divide_le_eq)
    then show ?thesis unfolding k_def by (simp only: ceiling_le_iff)
  qed
  have r2d: "is_double r2" unfolding r2_def u_def
    using k0 k_hi e0 e_hi by (intro is_double_dyadic) simp_all
  have prod_hi: "hf * c \<le> r2"
  proof -
    have "hf * c \<le> (x + u / 2) * (23 / 32)"
      using hf_hi c(2,3) hf1 x1 u by (intro mult_mono) simp_all
    also have "\<dots> \<le> 7 * x / 8" using ux u by simp
    finally show ?thesis using r2_ge by simp
  qed
  have prod_lo: "0 \<le> hf * c" using hf1 c(2) by simp
  have "\<exists>q. rnd (hf * c) = Fin q \<and> 0 \<le> q \<and> q \<le> r2"
    using prod_lo prod_hi r2d by (intro rnd_between) simp_all
  then obtain q where q: "rnd (hf * c) = Fin q" "0 \<le> q" "q \<le> r2" by (elim exE conjE)
  have r2x: "r2 < x" using r2_lt ux u by simp
  have "s = \<lfloor>q\<rfloor>" using pi q by (simp add: fin c trunc_nonneg)
  moreover have "\<lfloor>q\<rfloor> < height" using q(3) r2x by (simp add: floor_less_iff x_def)
  moreover have "0 \<le> \<lfloor>q\<rfloor>" using q(2) by simp
  ultimately show ?thesis by simp
qed

lemma finite_or_overflow_no_zdiv: "finite_or_overflow f \<noteq> Inl ZeroDivisionError"
  by (cases f) (simp_all add: finite_or_overflow_def)

lemma shadow_start_of_no_zdiv: "shadow_start_of height \<noteq> Inl ZeroDivisionError"
proof -
  have "py_int f \<noteq> Inl ZeroDivisionError" for f by (cases f) simp_all
  then show ?thesis
    by (cases "to_float height")
       (auto simp: shadow_start_of_def to_float_def finite_or_overflow_no_zdiv)
qed

lemma shadow_start_4: "shadow_start_of 4 = Inr 2"
proof -
  obtain c where c: "rnd (7 / 10) = Fin c" "11 / 16 \<le> c" "c \<le> 23 / 32" using c07 by (elim exE conjE)
  have "\<exists>q. rnd (4 * c) = Fin q \<and> 11 / 4 \<le> q \<and> q \<le> 23 / 8"
    using c is_double_frac [of 11 2] is_double_frac [of 23 3] by (intro rnd_between) simp_all
  then obtain q where q: "rnd (4 * c) = Fin q" "11 / 4 \<le> q" "q \<le> 23 / 8" by (elim exE conjE)
  have "\<lfloor>q\<rfloor> = 2" using q by (simp add: floor_eq_iff)
  then show ?thesis using q c
    by (simp add: shadow_start_of_def to_float_small trunc_nonneg)
qed


lemma rnd_FinD: "rnd x = Fin q \<Longrightarrow> q = rnd_fin x \<and> \<bar>q\<bar> < 2 ^ 1024"
  by (auto simp: rnd_def Let_def split: if_splits)

lemma rnd_quarter: "rnd (1 / 4) = Fin (1 / 4)"
  using rnd_exact [OF is_double_frac [of 1 2]] by simp

lemma rnd_three_quarters: "rnd (3 / 4) = Fin (3 / 4)"
  using rnd_exact [OF is_double_frac [of 3 2]] by simp

lemma shadow_factor_4_3: "get_shadow_factor 3 4 (Fin (1 / 2)) = Inr (Fin (3 / 4))"
  by (simp add: get_shadow_factor_def shadow_start_4 int_truediv_def finite_or_overflow_def
      rnd_half rnd_quarter rnd_three_quarters fsub_def)

section \<open>The corner distance\<close>

lemma is_double_pow2: "k \<le> 971 \<Longrightarrow> is_double (2 ^ k)" "k \<le> 971 \<Longrightarrow> is_double (- (2 ^ k))"
  using is_double_dyadic [of 1 "int k"] is_double_dyadic [of "- 1" "int k"]
  by (simp_all add: powi_nat)

lemma is_double_tiny: "is_double (2 powi (- 1074))"
  using is_double_dyadic [of 1 "- 1074"] by simp

lemma double_grid:
  assumes "is_double q"
  shows "\<exists>k. q = of_int k * 2 powi (- 1074)"
  using double_multiple [OF assms, of "- 1022"] by simp

lemma grid_pos:
  fixes q :: rat
  assumes "q = of_int k * 2 powi (- 1074)" and "0 < q"
  shows "2 powi (- 1074) \<le> q"
proof -
  define t :: rat where "t = 2 powi (- 1074)"
  have t: "0 < t" by (simp add: t_def)
  have q: "q = of_int k * t" using assms(1) by (simp only: t_def)
  have "0 < (of_int k :: rat)" using assms(2) t unfolding q by (simp only: zero_less_mult_pos2)
  then have "1 \<le> k" by simp
  then have "(1::rat) \<le> of_int k" by simp
  then have "1 * t \<le> of_int k * t" using t by (intro mult_right_mono) simp_all
  then show ?thesis unfolding q t_def [symmetric] by simp
qed

lemma rnd_fin_pos:
  assumes x: "2 powi (- 1075) < x"
  shows "2 powi (- 1074) \<le> rnd_fin x"
proof (cases "2 powi (- 1074) \<le> x")
  case True
  then show ?thesis by (rule rnd_fin_ge [OF is_double_tiny])
next
  case False
  define t :: rat where "t = 2 powi (- 1074)"
  define h :: rat where "h = 2 powi (- 1075)"
  have th: "t = 2 * h"
    using power_int_add [of "2::rat" 1 "- 1075"] by (simp only: t_def h_def) simp
  have hp: "0 < h" by (simp add: h_def)
  have dt: "is_double t" unfolding t_def by (rule is_double_tiny)
  have lt: "x < t" using False by (simp only: t_def not_le)
  have xh: "h < x" using x by (simp only: h_def)
  have "\<bar>x - rnd_fin x\<bar> \<le> \<bar>x - t\<bar>" by (rule rnd_fin_nearest [OF dt])
  also have "\<dots> = t - x" using lt by simp
  also have "\<dots> < h" using xh th by simp
  finally have "x - rnd_fin x < h" by simp
  then have pos: "0 < rnd_fin x" using xh by simp
  have le: "rnd_fin x \<le> t" using lt by (intro rnd_fin_le [OF dt]) simp
  have "t \<le> 2 powi 0" unfolding t_def by (rule powi_mono2) simp
  then have "t \<le> 1" by simp
  also have "(1::rat) < 2 ^ 1024" by (rule one_less_power) simp_all
  finally have "\<bar>rnd_fin x\<bar> < 2 ^ 1024" using pos le by simp
  then have "is_double (rnd_fin x)" by (rule rnd_fin_double)
  then obtain k where "rnd_fin x = of_int k * 2 powi (- 1074)" using double_grid by blast
  then show ?thesis using pos by (rule grid_pos)
qed

lemma rnd_sqrt_grid:
  assumes d: "is_double s" and pos: "0 < s"
  shows "\<exists>k. rnd_sqrt s = of_int k * 2 powi (- 1074)"
proof -
  define es where "es = ilog2 s div 2"
  obtain k0 where k0: "s = of_int k0 * 2 powi (- 1074)" using double_grid [OF d] by blast
  have "2 powi (- 1074) \<le> s" using k0 pos by (rule grid_pos)
  also have "s < 2 powi (ilog2 s + 1)" using ilog2_bounds [of s] pos by simp
  finally have "- 1074 < ilog2 s + 1" by (rule powi_less_cancel2)
  then have es: "0 \<le> es - 52 + 1074" unfolding es_def by simp
  obtain m where m: "rnd_sqrt s = of_int m * 2 powi (es - 52)"
    using rnd_sqrt_facts(4) [OF pos] unfolding es_def by blast
  have "(2::rat) powi (es - 52) = 2 powi (es - 52 + 1074) * 2 powi (- 1074)"
    using power_int_add [of "2::rat" "es - 52 + 1074" "- 1074"] by simp
  also have "(2::rat) powi (es - 52 + 1074) = of_int (2 ^ nat (es - 52 + 1074))"
    using es by (simp add: powi_nat)
  finally have "rnd_sqrt s = of_int (m * 2 ^ nat (es - 52 + 1074)) * 2 powi (- 1074)"
    unfolding m by (simp only: of_int_mult mult.assoc)
  then show ?thesis by blast
qed

lemma round_half_even_tie: "even k \<Longrightarrow> round_half_even (of_int k + 1 / 2) = k"
proof -
  assume e: "even k"
  have f: "\<lfloor>of_int k + 1 / 2 :: rat\<rfloor> = k" by (rule floor_unique) simp_all
  show ?thesis unfolding round_half_even_def Let_def f using e by simp
qed

lemma rnd_fin_tie_3_2: "rnd_fin (3 / 2 + 1 / 2 ^ 53) = 3 / 2"
proof -
  define x :: rat where "x = 3 / 2 + 1 / 2 ^ 53"
  have x0: "x \<noteq> 0" and x1: "1 \<le> x" and x2: "x < 2" by (simp_all add: x_def)
  have il: "ilog2 x = 0" using x1 x2 by (intro ilog2_eqI) simp_all
  have p: "(2::rat) powi (- 52) = 1 / 2 ^ 52" by (simp add: power_int_minus field_simps)
  have q: "x / (1 / 2 ^ 52) = of_int (3 * 2 ^ 51) + 1 / 2" by (simp add: x_def)
  have ev: "even (3 * 2 ^ 51 :: int)" by simp
  have "rnd_fin x = of_int (round_half_even (x / (1 / 2 ^ 52))) * (1 / 2 ^ 52)"
    using rnd_fin_unfold [OF x0] by (simp only: il p) simp
  also have "\<dots> = of_int (3 * 2 ^ 51) * (1 / 2 ^ 52)"
    by (simp only: q round_half_even_tie [OF ev])
  also have "\<dots> = 3 / 2" by simp
  finally show ?thesis by (simp only: x_def)
qed

lemma rnd_fin_le_3_2:
  assumes "0 \<le> x" and "x \<le> 3 / 2 + 1 / 2 ^ 53"
  shows "rnd_fin x \<le> 3 / 2"
proof -
  have d2: "is_double 2" by (rule is_double_numeral) simp
  have "0 \<le> rnd_fin x" using assms(1) by (intro rnd_fin_ge) simp_all
  moreover have "rnd_fin x \<le> 2" using assms(2) by (intro rnd_fin_le d2) simp
  moreover have "(2::rat) < 2 ^ 1024" by simp
  ultimately have fx: "\<bar>rnd_fin x\<bar> < 2 ^ 1024" by linarith
  have fy: "\<bar>rnd_fin (3 / 2 + 1 / 2 ^ 53)\<bar> < 2 ^ 1024" by (simp only: rnd_fin_tie_3_2) simp
  show ?thesis using rnd_fin_mono [OF assms(2) fx fy] by (simp only: rnd_fin_tie_3_2)
qed

text \<open>
  \<^verbatim>\<open>radius - 1.5\<close> for a radius below \<open>2\<^sup>5\<^sup>2\<close>: the difference is exact from 2 on, and
  rounded by at most \<open>2\<^sup>-\<^sup>5\<^sup>3\<close> below.
\<close>

lemma radius_minus_small:
  assumes r: "0 \<le> r" "r < 2"
  shows "\<bar>rnd_fin (r - 3 / 2) - (r - 3 / 2)\<bar> \<le> 1 / 2 ^ 53"
proof -
  define z where "z = r - 3 / 2"
  define k where "k = round_half_even (z * 2 ^ 52)"
  have zb: "- (3 / 2) \<le> z" "z \<le> 3 / 2" using r by (simp_all add: z_def)
  have "z * 2 ^ 52 \<le> of_int (3 * 2 ^ 51)" using zb(2) by simp
  then have k1: "k \<le> 3 * 2 ^ 51" unfolding k_def by (rule round_half_even_le)
  have "of_int (- (3 * 2 ^ 51)) \<le> z * 2 ^ 52" using zb(1) by simp
  then have k2: "- (3 * 2 ^ 51) \<le> k" unfolding k_def by (rule round_half_even_ge)
  have "\<bar>k\<bar> < 2 ^ 53" using k1 k2 by simp
  then have dq: "is_double (of_int k / 2 ^ 52)" by (rule is_double_frac) simp
  have c: "of_int k \<le> z * 2 ^ 52 + 1 / 2" "z * 2 ^ 52 - 1 / 2 \<le> of_int k"
    unfolding k_def by (rule round_half_even_close)+
  have "\<bar>z - of_int k / 2 ^ 52\<bar> = \<bar>z * 2 ^ 52 - of_int k\<bar> / 2 ^ 52"
    by (simp add: field_simps abs_divide)
  also have "\<dots> \<le> (1 / 2) / 2 ^ 52"
  proof (rule divide_right_mono)
    show "\<bar>z * 2 ^ 52 - of_int k\<bar> \<le> 1 / 2" using c by (simp only: abs_le_iff) linarith
  qed simp
  finally have "\<bar>z - of_int k / 2 ^ 52\<bar> \<le> 1 / 2 ^ 53" by simp
  moreover have "\<bar>z - rnd_fin z\<bar> \<le> \<bar>z - of_int k / 2 ^ 52\<bar>" by (rule rnd_fin_nearest [OF dq])
  ultimately show ?thesis unfolding z_def [symmetric] by (simp add: abs_minus_commute)
qed

lemma radius_minus_exact:
  assumes d: "is_double r" and r: "2 \<le> r" "r < 2 ^ 52"
  shows "is_double (r - 3 / 2)"
proof -
  define e where "e = ilog2 r"
  have r0: "r \<noteq> 0" using r by simp
  have b: "2 powi e \<le> r" "r < 2 powi (e + 1)" using ilog2_bounds [OF r0] r unfolding e_def by simp_all
  have "(2::rat) powi 1 < 2 powi (e + 1)" using r(1) b(2) by simp
  then have e1: "1 \<le> e" using powi_less_cancel2 [of 1 "e + 1"] by simp
  have "(2::rat) powi e < 2 powi 52" using b(1) r(2) by simp
  then have e2: "e < 52" by (rule powi_less_cancel2)
  define u :: rat where "u = 2 powi (e - 52)"
  have u: "0 < u" by (simp add: u_def)
  obtain k where k: "r = of_int k * u" using double_multiple [OF d, of e] b(1) r unfolding u_def by auto
  have "(2::rat) powi (51 - e) * u = 2 powi (- 1)"
    unfolding u_def using power_int_add [of "2::rat" "51 - e" "e - 52"] by simp
  then have h: "(2::rat) powi (51 - e) * u = 1 / 2" by simp
  have pn: "(2::rat) powi (51 - e) = of_int (2 ^ nat (51 - e))" using e2 by (simp add: powi_nat)
  define m where "m = k - 3 * 2 ^ nat (51 - e)"
  have "of_int m * u = r - 3 * (2 powi (51 - e) * u)"
    unfolding m_def k pn by (simp add: algebra_simps)
  then have z: "r - 3 / 2 = of_int m * u" unfolding h by simp
  have "(2::rat) powi (e + 1) = 2 powi 53 * u"
    unfolding u_def using power_int_add [of "2::rat" 53 "e - 52"] by (simp add: add.commute)
  then have top: "(2::rat) powi (e + 1) = 2 ^ 53 * u" by simp
  have "0 < of_int m * u" using r(1) unfolding z [symmetric] by simp
  then have m0: "0 < m" using u by (simp add: zero_less_mult_iff)
  have "of_int m * u < 2 ^ 53 * u" using b(2) unfolding z [symmetric] top by simp
  then have "(of_int m :: rat) < 2 ^ 53" using u by simp
  then have m1: "m < 2 ^ 53" by (simp only: of_int_less_numeral_power_cancel_iff)
  have "is_double (of_int m * 2 powi (e - 52))"
    using m0 m1 e1 e2 by (intro is_double_dyadic) simp_all
  then show ?thesis unfolding z u_def .
qed

lemma radius_minus:
  assumes d: "is_double r" and r: "0 \<le> r" "r < 2 ^ 52"
  shows "\<exists>rm. fsub (Fin r) (Fin (3 / 2)) = Fin rm \<and> is_double rm
           \<and> \<bar>rm - (r - 3 / 2)\<bar> \<le> 1 / 2 ^ 53 \<and> rm \<le> r"
proof -
  have fs: "fsub (Fin r) (Fin (3 / 2)) = rnd (r - 3 / 2)" by (simp add: fsub_def)
  show ?thesis
  proof (cases "r < 2")
    case True
    have d2: "is_double 2" "is_double (- 2)"
      using is_double_int [of 2] is_double_int [of "- 2"] by simp_all
    have "\<exists>q. rnd (r - 3 / 2) = Fin q \<and> - 2 \<le> q \<and> q \<le> 2"
      using r True by (intro rnd_between d2) simp_all
    then obtain q where q: "rnd (r - 3 / 2) = Fin q" by (elim exE conjE)
    have qe: "q = rnd_fin (r - 3 / 2)" and qb: "\<bar>q\<bar> < 2 ^ 1024"
      using rnd_FinD [OF q] by (rule conjunct1, rule conjunct2)
    have dq: "is_double q" unfolding qe by (rule rnd_fin_double [OF qb [unfolded qe]])
    have cl: "\<bar>q - (r - 3 / 2)\<bar> \<le> 1 / 2 ^ 53" unfolding qe by (rule radius_minus_small [OF r(1) True])
    have le: "q \<le> r" unfolding qe by (rule rnd_fin_le [OF d]) simp
    show ?thesis unfolding fs q by (intro exI [of _ q] conjI refl dq cl le)
  next
    case False
    then have "is_double (r - 3 / 2)" using r by (intro radius_minus_exact d) simp_all
    then show ?thesis unfolding fs by (intro exI [of _ "r - 3 / 2"]) (simp add: rnd_exact)
  qed
qed

lemma sq_term:
  fixes x :: int and c :: rat
  assumes pw: "\<forall>a. 0 < a \<and> a \<le> 2 ^ 56 \<longrightarrow> (\<exists>b. pw a = Fin b \<and> 0 \<le> b \<and> b \<le> 2 ^ 113)"
    and x: "\<bar>x\<bar> < 2 ^ 53" and c: "\<bar>c\<bar> \<le> 2 ^ 54"
  shows "\<exists>b. fpow2 pw (fsub (Fin (of_int x)) (Fin c)) = Inr (Fin b) \<and> 0 \<le> b \<and> b \<le> 2 ^ 113"
proof -
  define B :: rat where "B = 2 ^ 56"
  have dB: "is_double B" "is_double (- B)" unfolding B_def by (rule is_double_pow2, simp)+
  have "\<bar>of_int x :: rat\<bar> < 2 ^ 53" using x by (simp only: of_int_abs [symmetric] of_int_less_numeral_power_cancel_iff)
  then have "\<bar>of_int x - c\<bar> \<le> B" using c unfolding B_def by simp
  then have "- B \<le> of_int x - c" "of_int x - c \<le> B" by simp_all
  then have "\<exists>a. rnd (of_int x - c) = Fin a \<and> - B \<le> a \<and> a \<le> B"
    by (intro rnd_between dB)
  then obtain a where a: "rnd (of_int x - c) = Fin a" "- B \<le> a" "a \<le> B" by (elim exE conjE)
  have fs: "fsub (Fin (of_int x)) (Fin c) = Fin a" by (simp add: fsub_def a(1))
  show ?thesis
  proof (cases "a = 0 \<or> \<bar>a\<bar> = 1")
    case True
    then show ?thesis unfolding fs by auto
  next
    case False
    then have "0 < \<bar>a\<bar>" "\<bar>a\<bar> \<le> 2 ^ 56" using a(2,3) by (simp_all add: B_def)
    then obtain b where b: "pw \<bar>a\<bar> = Fin b" "0 \<le> b" "b \<le> 2 ^ 113" using pw by blast
    have "fpow2 pw (Fin a) = Inr (Fin b)" using False b(1) by simp
    then show ?thesis unfolding fs using b(2,3) by blast
  qed
qed

lemma corner_dist_to_finite:
  fixes x y :: int and cx cy :: rat
  assumes pw: "\<forall>a. 0 < a \<and> a \<le> 2 ^ 56 \<longrightarrow> (\<exists>b. pw a = Fin b \<and> 0 \<le> b \<and> b \<le> 2 ^ 113)"
    and x: "\<bar>x\<bar> < 2 ^ 53" and y: "\<bar>y\<bar> < 2 ^ 53" and cx: "\<bar>cx\<bar> \<le> 2 ^ 54" and cy: "\<bar>cy\<bar> \<le> 2 ^ 54"
  shows "\<exists>d. corner_dist_to pw x y (Fin cx) (Fin cy) = Inr (Fin d) \<and> 0 \<le> d
           \<and> (\<exists>k. d = of_int k * 2 powi (- 1074))"
proof -
  obtain b where b: "fpow2 pw (fsub (Fin (of_int x)) (Fin cx)) = Inr (Fin b)" "0 \<le> b" "b \<le> 2 ^ 113"
    using sq_term [OF pw x cx] by (elim exE conjE)
  obtain c where c: "fpow2 pw (fsub (Fin (of_int y)) (Fin cy)) = Inr (Fin c)" "0 \<le> c" "c \<le> 2 ^ 113"
    using sq_term [OF pw y cy] by (elim exE conjE)
  have d114: "is_double (2 ^ 114)" by (rule is_double_pow2) simp
  have "\<exists>s. rnd (b + c) = Fin s \<and> 0 \<le> s \<and> s \<le> 2 ^ 114"
    using b c by (intro rnd_between d114) simp_all
  then obtain s where s: "rnd (b + c) = Fin s" "0 \<le> s" "s \<le> 2 ^ 114" by (elim exE conjE)
  have se: "s = rnd_fin (b + c)" and sb: "\<bar>s\<bar> < 2 ^ 1024"
    using rnd_FinD [OF s(1)] by (rule conjunct1, rule conjunct2)
  have ds: "is_double s" unfolding se by (rule rnd_fin_double [OF sb [unfolded se]])
  have cd: "corner_dist_to pw x y (Fin cx) (Fin cy) = fsqrt (Fin s)"
    using x y by (simp add: corner_dist_to_def to_float_small b c s del: fpow2.simps)
  show ?thesis
  proof (cases "s = 0")
    case True
    have "(0::rat) = of_int 0 * 2 powi (- 1074)" by simp
    then show ?thesis unfolding cd using True by (intro exI [of _ 0]) auto
  next
    case False
    then have pos: "0 < s" using s(2) by simp
    have "0 \<le> rnd_sqrt s" using pos by (intro rnd_sqrt_ge) simp_all
    moreover have "fsqrt (Fin s) = Inr (Fin (rnd_sqrt s))" using pos by simp
    ultimately show ?thesis unfolding cd using rnd_sqrt_grid [OF ds pos] by simp
  qed
qed

lemma corner_centre_finite:
  fixes w :: int and r :: rat
  assumes w: "0 \<le> w" "w < 2 ^ 53" and r: "0 \<le> r" "r \<le> 2 ^ 53"
  shows "\<exists>wr. fsub (fsub (Fin (of_int w)) (Fin r)) (Fin 1) = Fin wr \<and> \<bar>wr\<bar> \<le> 2 ^ 54"
proof -
  define B :: rat where "B = 2 ^ 53"
  define C :: rat where "C = 2 ^ 54"
  have dB: "is_double B" "is_double (- B)" unfolding B_def by (rule is_double_pow2, simp)+
  have dC: "is_double C" "is_double (- C)" unfolding C_def by (rule is_double_pow2, simp)+
  have BC: "C = 2 * B" by (simp add: B_def C_def)
  have B1: "1 \<le> B" by (simp add: B_def)
  have "(of_int w :: rat) < 2 ^ 53" using w(2) by (simp only: of_int_less_numeral_power_cancel_iff)
  moreover have "(0::rat) \<le> of_int w" using w(1) by simp
  ultimately have "- B \<le> of_int w - r" "of_int w - r \<le> B" using r unfolding B_def by simp_all
  then have "\<exists>a. rnd (of_int w - r) = Fin a \<and> - B \<le> a \<and> a \<le> B" by (intro rnd_between dB)
  then obtain a where a: "rnd (of_int w - r) = Fin a" "- B \<le> a" "a \<le> B" by (elim exE conjE)
  have "- C \<le> a - 1" "a - 1 \<le> C" using a B1 BC by simp_all
  then have "\<exists>q. rnd (a - 1) = Fin q \<and> - C \<le> q \<and> q \<le> C" by (intro rnd_between dC)
  then obtain q where q: "rnd (a - 1) = Fin q" "- C \<le> q" "q \<le> C" by (elim exE conjE)
  have "fsub (fsub (Fin (of_int w)) (Fin r)) (Fin 1) = Fin q" by (simp add: fsub_def a(1) q(1))
  moreover have "\<bar>q\<bar> \<le> 2 ^ 54" using q(2,3) unfolding C_def by simp
  ultimately show ?thesis by blast
qed

lemma corner_fraction_range:
  assumes grid: "d = of_int k * 2 powi (- 1074)"
    and rmh: "fsub (Fin r) (Fin (3 / 2)) = Fin rm" and drm: "is_double rm"
    and cl: "\<bar>rm - (r - 3 / 2)\<bar> \<le> 1 / 2 ^ 53"
    and lo: "rm < d" and hi: "d \<le> r"
  shows "\<exists>f. fdiv (corner_value (Fin d) (Fin r)) (Fin (3 / 2)) = Inr (Fin f) \<and> 0 < f \<and> f \<le> 1"
proof -
  define t :: rat where "t = 2 powi (- 1074)"
  define h :: rat where "h = 2 powi (- 1075)"
  have th: "t = 2 * h"
    using power_int_add [of "2::rat" 1 "- 1075"] by (simp only: t_def h_def) simp
  have hp: "0 < h" by (simp add: h_def)
  have dt: "is_double t" unfolding t_def by (rule is_double_tiny)
  have d2: "is_double 2" by (rule is_double_numeral) simp
  obtain j where j: "rm = of_int j * 2 powi (- 1074)" using double_grid [OF drm] by blast
  have "d - rm = of_int (k - j) * 2 powi (- 1074)"
    unfolding grid j by (simp only: of_int_diff left_diff_distrib)
  moreover have pos: "0 < d - rm" using lo by simp
  ultimately have "2 powi (- 1074) \<le> d - rm" by (rule grid_pos)
  then have x1: "t \<le> d - rm" by (simp only: t_def)
  have x2: "d - rm \<le> 3 / 2 + 1 / 2 ^ 53" using hi cl by (simp only: abs_le_iff) linarith
  have "d - rm \<le> 2" using x2 by simp
  then have "\<exists>v. rnd (d - rm) = Fin v \<and> t \<le> v \<and> v \<le> 2" using x1 by (intro rnd_between dt d2)
  then obtain v where v: "rnd (d - rm) = Fin v" "t \<le> v" by (elim exE conjE)
  have "rnd_fin (d - rm) \<le> 3 / 2" using pos x2 by (intro rnd_fin_le_3_2) simp_all
  then have v3: "v \<le> 3 / 2" using rnd_FinD [OF v(1)] by simp
  have "d + - rm = d - rm" by simp
  then have "fsub (Fin d) (Fin rm) = rnd (d - rm)" by (simp only: fsub_def fneg.simps fadd.simps)
  then have cv: "corner_value (Fin d) (Fin r) = Fin v" by (simp only: corner_value_def rmh v(1))
  have "0 \<le> v / (3 / 2)" "v / (3 / 2) \<le> 1" using v(2) v3 hp th by simp_all
  then have "\<exists>f. rnd (v / (3 / 2)) = Fin f \<and> 0 \<le> f \<and> f \<le> 1"
    by (intro rnd_between) simp_all
  then obtain f where f: "rnd (v / (3 / 2)) = Fin f" "f \<le> 1" by (elim exE conjE)
  have "h < v / (3 / 2)" using v(2) th hp by simp
  then have "2 powi (- 1075) < v / (3 / 2)" by (simp only: h_def)
  then have "2 powi (- 1074) \<le> rnd_fin (v / (3 / 2))" by (rule rnd_fin_pos)
  then have "t \<le> f" using rnd_FinD [OF f(1)] by (simp only: t_def)
  then have "0 < f" using th hp by simp
  moreover have "fdiv (corner_value (Fin d) (Fin r)) (Fin (3 / 2)) = Inr (Fin f)"
    unfolding cv using f(1) by simp
  ultimately show ?thesis using f(2) by blast
qed

lemma corner_loop_find:
  assumes rmh: "fsub (Fin r) (Fin (3 / 2)) = Fin rm" and rmr: "rm \<le> r"
    and fin: "\<forall>c\<in>set cs. \<exists>d. corner_dist_to pw x y (fst c) (snd c) = Inr (Fin d)"
  shows "case find (\<lambda>(cx, cy). (in_corner x (Fin r) wr cx \<and> in_corner y (Fin r) hr cy)
                      \<and> (case corner_dist_to pw x y cx cy of Inr (Fin d) \<Rightarrow> rm < d | _ \<Rightarrow> False)) cs of
           None \<Rightarrow> corner_loop pw x y (Fin r) wr hr cs = Inr (Fin 0)
         | Some (cx, cy) \<Rightarrow> (\<exists>d. corner_dist_to pw x y cx cy = Inr (Fin d) \<and> rm < d
              \<and> corner_loop pw x y (Fin r) wr hr cs
                = (if r < d then Inr (Fin 1) else fdiv (corner_value (Fin d) (Fin r)) (Fin (3 / 2))))"
  using fin
proof (induction cs)
  case Nil
  then show ?case by simp
next
  case (Cons c cs)
  obtain cx cy where c: "c = (cx, cy)" by (cases c)
  obtain d where d: "corner_dist_to pw x y cx cy = Inr (Fin d)" using Cons.prems c by auto
  have IH: "case find (\<lambda>(cx, cy). (in_corner x (Fin r) wr cx \<and> in_corner y (Fin r) hr cy)
                      \<and> (case corner_dist_to pw x y cx cy of Inr (Fin d) \<Rightarrow> rm < d | _ \<Rightarrow> False)) cs of
           None \<Rightarrow> corner_loop pw x y (Fin r) wr hr cs = Inr (Fin 0)
         | Some (cx, cy) \<Rightarrow> (\<exists>d. corner_dist_to pw x y cx cy = Inr (Fin d) \<and> rm < d
              \<and> corner_loop pw x y (Fin r) wr hr cs
                = (if r < d then Inr (Fin 1) else fdiv (corner_value (Fin d) (Fin r)) (Fin (3 / 2))))"
    using Cons.prems by (intro Cons.IH) simp
  show ?case
  proof (cases "(in_corner x (Fin r) wr cx \<and> in_corner y (Fin r) hr cy) \<and> rm < d")
    case True
    then show ?thesis unfolding c by (simp add: d fgt_def rmh)
  next
    case False
    then have "\<not> (in_corner x (Fin r) wr cx \<and> in_corner y (Fin r) hr cy) \<or> (\<not> rm < d \<and> \<not> r < d)"
      using rmr by auto
    then have "corner_loop pw x y (Fin r) wr hr (c # cs) = corner_loop pw x y (Fin r) wr hr cs"
      unfolding c by (auto simp: d fgt_def rmh)
    moreover have "find (\<lambda>(cx, cy). (in_corner x (Fin r) wr cx \<and> in_corner y (Fin r) hr cy)
                      \<and> (case corner_dist_to pw x y cx cy of Inr (Fin d) \<Rightarrow> rm < d | _ \<Rightarrow> False)) (c # cs)
       = find (\<lambda>(cx, cy). (in_corner x (Fin r) wr cx \<and> in_corner y (Fin r) hr cy)
                      \<and> (case corner_dist_to pw x y cx cy of Inr (Fin d) \<Rightarrow> rm < d | _ \<Rightarrow> False)) cs"
      using False unfolding c by (auto simp: d)
    ultimately show ?thesis using IH by (simp only:)
  qed
qed

lemma find_mem: "find P xs = Some x \<Longrightarrow> x \<in> set xs \<and> P x"
  by (induction xs) (auto split: if_splits)

lemma sqrt25: "rnd_sqrt 25 = 5"
proof -
  have d: "is_double 5" by (rule is_double_numeral) simp
  have "5 \<le> rnd_sqrt 25" using d by (rule rnd_sqrt_ge) simp_all
  moreover have "rnd_sqrt 25 \<le> 5" using d by (rule rnd_sqrt_le) simp_all
  ultimately show ?thesis by simp
qed

lemma rnd_7_2: "rnd (7 / 2) = Fin (7 / 2)"
  using rnd_exact [OF is_double_frac [of 7 1]] by simp

lemma rnd_3_2: "rnd (3 / 2) = Fin (3 / 2)"
  using rnd_exact [OF is_double_frac [of 3 1]] by simp

lemma sqrt5_le3: "rnd_sqrt 5 \<le> 3"
proof -
  have "is_double 3" by (rule is_double_numeral) simp
  then show ?thesis by (rule rnd_sqrt_le) simp_all
qed

lemma pow_rounded_finite:
  "\<forall>a. 0 < a \<and> a \<le> 2 ^ 56 \<longrightarrow> (\<exists>b. pow_rounded a = Fin b \<and> 0 \<le> b \<and> b \<le> 2 ^ 113)"
proof (intro allI impI)
  fix a :: rat assume a: "0 < a \<and> a \<le> 2 ^ 56"
  have d: "is_double (2 ^ 113)" by (rule is_double_pow2) simp
  have "a * a \<le> 2 ^ 56 * 2 ^ 56" using a by (intro mult_mono) simp_all
  then have "a * a \<le> 2 ^ 113" by simp
  then show "\<exists>b. pow_rounded a = Fin b \<and> 0 \<le> b \<and> b \<le> 2 ^ 113"
    unfolding pow_rounded_def using a by (intro rnd_between d) simp_all
qed

text \<open>
  The distance of the pixel \<open>(1, 2)\<close> to the corner centre \<open>(5, 5)\<close>, for every \<^verbatim>\<open>pow\<close> that
  gives the squares of 3 and 4 exactly.
\<close>

lemma corner_dist_3_4:
  assumes "pw 4 = Fin 16" "pw 3 = Fin 9"
  shows "corner_dist_to pw 1 2 (Fin 5) (Fin 5) = Inr (Fin 5)"
  using assms
  by (simp add: corner_dist_to_def to_float_small fsub_def rnd_small finite_or_overflow_def sqrt25)

lemma dist_112_r5:
  assumes "pw 4 = Fin 16" "pw 3 = Fin 9"
  shows "distance_to_corner pw 1 2 112 112 (Fin 5) = Inr (Fin 1)"
  by (simp add: distance_to_corner_def to_float_small fsub_def rnd_small Let_def in_corner_def
      exact_def fgt_def corner_dist_3_4 [OF assms] corner_value_def rnd_7_2 rnd_3_2)

lemma pow_rounded_3_4: "pow_rounded 4 = Fin 16" "pow_rounded 3 = Fin 9"
  by (simp_all add: pow_rounded_def rnd_small)

lemma corner_dist_4x4:
  "corner_dist_to pow_rounded 2 2 (Fin 3) (Fin 3) = Inr (Fin (rnd_sqrt 2))"
  "corner_dist_to pow_rounded 2 2 (Fin 0) (Fin 3) = Inr (Fin (rnd_sqrt 5))"
  by (simp_all add: corner_dist_to_def pow_rounded_def to_float_small fsub_def rnd_small
      finite_or_overflow_def)


section \<open>The loop on the store\<close>

lemma pixel_body_st_refines:
  assumes a: "a < length st"
  shows "case pixel_body pw width height radius max_shadow y x (st ! a) of
           Inr m' \<Rightarrow> pixel_body_st pw width height radius max_shadow a y x st = (st[a := m'], None)
         | Inl e \<Rightarrow> (\<exists>st'. pixel_body_st pw width height radius max_shadow a y x st = (st', Some e)
                       \<and> length st' = length st \<and> (\<forall>a'. a' \<noteq> a \<longrightarrow> st' ! a' = st ! a'))"
  unfolding pixel_body_def pixel_body_st_def Let_def
  using a
  by (auto simp: store_write_def and_then_def split: sum.splits)

lemma for_each_st_refines:
  assumes step: "\<And>x st. a < length st \<Longrightarrow>
      (case fp x (st ! a) of
         Inr m' \<Rightarrow> fs x st = (st[a := m'], None)
       | Inl e \<Rightarrow> (\<exists>st'. fs x st = (st', Some e) \<and> length st' = length st
                     \<and> (\<forall>a'. a' \<noteq> a \<longrightarrow> st' ! a' = st ! a')))"
    and a: "a < length st"
  shows "case for_each fp xs (st ! a) of
           Inr m' \<Rightarrow> for_each_st fs xs st = (st[a := m'], None)
         | Inl e \<Rightarrow> (\<exists>st'. for_each_st fs xs st = (st', Some e) \<and> length st' = length st
                       \<and> (\<forall>a'. a' \<noteq> a \<longrightarrow> st' ! a' = st ! a'))"
  using a
proof (induction xs arbitrary: st)
  case Nil
  then show ?case by simp
next
  case (Cons x xs)
  note s = step [OF Cons.prems, of x]
  show ?case
  proof (cases "fp x (st ! a)")
    case (Inl e)
    then show ?thesis using s by auto
  next
    case (Inr m1)
    then have f: "fs x st = (st[a := m1], None)" using s by simp
    have a1: "a < length (st[a := m1])" using Cons.prems by simp
    have n: "st[a := m1] ! a = m1" using Cons.prems by simp
    note ih = Cons.IH [OF a1, unfolded n]
    show ?thesis
    proof (cases "for_each fp xs m1")
      case (Inl e)
      then obtain st' where "for_each_st fs xs (st[a := m1]) = (st', Some e)"
        "length st' = length (st[a := m1])" "\<forall>a'. a' \<noteq> a \<longrightarrow> st' ! a' = st[a := m1] ! a'"
        using ih by auto
      then show ?thesis using Inl Inr f by simp
    next
      case (Inr m')
      then have "for_each_st fs xs (st[a := m1]) = (st[a := m'], None)" using ih by simp
      then show ?thesis using Inr \<open>fp x (st ! a) = Inr m1\<close> f by simp
    qed
  qed
qed

lemma transform_loop_st_refines:
  assumes a: "a < length st"
  shows "case transform_loop pw width height radius max_shadow (st ! a) of
           Inr m' \<Rightarrow> transform_loop_st pw width height radius max_shadow a st = (st[a := m'], None)
         | Inl e \<Rightarrow> (\<exists>st'. transform_loop_st pw width height radius max_shadow a st = (st', Some e)
                       \<and> length st' = length st \<and> (\<forall>a'. a' \<noteq> a \<longrightarrow> st' ! a' = st ! a'))"
  unfolding transform_loop_def transform_loop_st_def
  by (rule for_each_st_refines [OF _ a], rule for_each_st_refines, rule pixel_body_st_refines)

text \<open>
  The loop writes through the address it is given: run on the caller's own list it changes
  that list. It is the copy made by \<^verbatim>\<open>list(pixels)\<close> that keeps the input as it was.
\<close>

lemma transform_loop_st_in_place:
  "transform_loop_st pow_rounded 1 1 (Fin 1) (Fin (1 / 2)) 0 [[10, 20, 30, 40]] = ([[0, 0, 0, 0]], None)"
  using transform_loop_st_refines [of 0 "[[10, 20, 30, 40]]" pow_rounded 1 1 "Fin 1" "Fin (1 / 2)"]
    apply_modifications_InrD(2) [OF run_1x1]
  by simp

lemma apply_modifications_st_cases:
  assumes eq: "int (length (st ! pixels)) = width * height * 4"
  shows "case apply_modifications pw (st ! pixels) width height radius max_shadow of
           Inr out \<Rightarrow> apply_modifications_st pw st pixels width height radius max_shadow
                       = (st @ [out], Inr (length st))
         | Inl e \<Rightarrow> (\<exists>l. apply_modifications_st pw st pixels width height radius max_shadow
                       = (st @ [l], Inl e))"
proof -
  define st1 where "st1 = st @ [st ! pixels]"
  have a: "length st < length st1" and n: "st1 ! length st = st ! pixels" by (simp_all add: st1_def)
  note t = transform_loop_st_refines [OF a, of pw width height radius max_shadow, unfolded n]
  have am: "apply_modifications pw (st ! pixels) width height radius max_shadow
      = transform_loop pw width height radius max_shadow (st ! pixels)"
    using eq by (simp add: apply_modifications_def)
  show ?thesis
  proof (cases "transform_loop pw width height radius max_shadow (st ! pixels)")
    case (Inr out)
    then have "transform_loop_st pw width height radius max_shadow (length st) st1
        = (st1[length st := out], None)" using t by simp
    then show ?thesis using eq Inr am
      by (simp add: apply_modifications_st_def Let_def st1_def [symmetric]) (simp add: st1_def)
  next
    case (Inl e)
    then obtain st' where s: "transform_loop_st pw width height radius max_shadow (length st) st1
        = (st', Some e)" "length st' = length st1" "\<forall>a'. a' \<noteq> length st \<longrightarrow> st' ! a' = st1 ! a'"
      using t by auto
    have "st' = st @ [st' ! length st]"
    proof (rule nth_equalityI)
      show "length st' = length (st @ [st' ! length st])" using s(2) by (simp add: st1_def)
      fix i assume "i < length st'"
      then show "st' ! i = (st @ [st' ! length st]) ! i"
        using s(2,3) by (cases "i = length st") (auto simp: st1_def nth_append)
    qed
    then have "\<exists>l. st' = st @ [l]" by blast
    then show ?thesis using eq Inl am s(1)
      by (auto simp: apply_modifications_st_def Let_def st1_def [symmetric])
  qed
qed


section \<open>The pattern and the substitution\<close>

lemma lit_iff: "lit s t = Some r \<longleftrightarrow> t = s @ r"
  unfolding lit_def by (metis append_eq_conv_conj append_take_drop_id option.distinct(1) option.inject)

lemma takeWhile_dropWhile_split:
  assumes "\<forall>c\<in>set w. P c" and "r = [] \<or> \<not> P (hd r)"
  shows "takeWhile P (w @ r) = w" and "dropWhile P (w @ r) = r"
proof -
  have tr: "takeWhile P r = []" using assms(2) by (cases r) auto
  have dr: "dropWhile P r = r" using assms(2) by (cases r) auto
  show "takeWhile P (w @ r) = w" using assms(1) tr by (simp add: takeWhile_append2)
  show "dropWhile P (w @ r) = r" using assms(1) dr by (simp add: dropWhile_append2)
qed

lemma dropWhile_stop: "dropWhile P t = [] \<or> \<not> P (hd (dropWhile P t))"
  using hd_dropWhile [of P t] by blast

lemma many1_iff:
  "many1 P t = Some r \<longleftrightarrow>
     (\<exists>w. t = w @ r \<and> w \<noteq> [] \<and> (\<forall>c\<in>set w. P c) \<and> (r = [] \<or> \<not> P (hd r)))"
proof
  assume "many1 P t = Some r"
  then have w: "takeWhile P t \<noteq> []" and r: "r = dropWhile P t"
    by (auto simp: many1_def split: if_splits)
  have "t = takeWhile P t @ r" unfolding r by simp
  moreover have "\<forall>c\<in>set (takeWhile P t). P c" by (auto dest: set_takeWhileD)
  moreover have "r = [] \<or> \<not> P (hd r)" unfolding r by (rule dropWhile_stop)
  ultimately show "\<exists>w. t = w @ r \<and> w \<noteq> [] \<and> (\<forall>c\<in>set w. P c) \<and> (r = [] \<or> \<not> P (hd r))"
    using w by blast
next
  assume "\<exists>w. t = w @ r \<and> w \<noteq> [] \<and> (\<forall>c\<in>set w. P c) \<and> (r = [] \<or> \<not> P (hd r))"
  then obtain w where w: "t = w @ r" "w \<noteq> []" "\<forall>c\<in>set w. P c" "r = [] \<or> \<not> P (hd r)" by blast
  show "many1 P t = Some r"
    unfolding many1_def w(1) using takeWhile_dropWhile_split [OF w(3,4)] w(2) by simp
qed

lemma many_iff:
  "many P t = Some r \<longleftrightarrow> (\<exists>w. t = w @ r \<and> (\<forall>c\<in>set w. P c) \<and> (r = [] \<or> \<not> P (hd r)))"
proof
  assume "many P t = Some r"
  then have r: "r = dropWhile P t" by (auto simp: many_def)
  have "t = takeWhile P t @ r" unfolding r by simp
  moreover have "\<forall>c\<in>set (takeWhile P t). P c" by (auto dest: set_takeWhileD)
  moreover have "r = [] \<or> \<not> P (hd r)" unfolding r by (rule dropWhile_stop)
  ultimately show "\<exists>w. t = w @ r \<and> (\<forall>c\<in>set w. P c) \<and> (r = [] \<or> \<not> P (hd r))" by blast
next
  assume "\<exists>w. t = w @ r \<and> (\<forall>c\<in>set w. P c) \<and> (r = [] \<or> \<not> P (hd r))"
  then obtain w where w: "t = w @ r" "\<forall>c\<in>set w. P c" "r = [] \<or> \<not> P (hd r)" by blast
  show "many P t = Some r"
    unfolding many_def w(1) using takeWhile_dropWhile_split [OF w(2,3)] by simp
qed

lemma class_facts:
  "is_word c \<Longrightarrow> \<not> is_space c"
  "\<not> is_word (CHR ''['')" "\<not> is_space (CHR ''='')" "\<not> is_space (CHR ''{'')"
  "is_space c \<Longrightarrow> c \<noteq> CHR ''{''" "is_word c \<Longrightarrow> c \<noteq> CHR ''{''"
  "is_space c \<Longrightarrow> c \<noteq> CHR ''}''" "is_word c \<Longrightarrow> c \<noteq> CHR ''}''"
  by (auto simp: is_word_def is_space_def Let_def)

text \<open>The texts the header pattern describes.\<close>

lemma header_iff:
  "header t = Some r \<longleftrightarrow>
     (\<exists>w1 w w2 w3. t = ''uint8_t'' @ w1 @ w @ ''[]'' @ w2 @ ''='' @ w3 @ ''{'' @ r
        \<and> w1 \<noteq> [] \<and> (\<forall>c\<in>set w1. is_space c) \<and> w \<noteq> [] \<and> (\<forall>c\<in>set w. is_word c)
        \<and> (\<forall>c\<in>set w2. is_space c) \<and> (\<forall>c\<in>set w3. is_space c))"
  (is "?L \<longleftrightarrow> ?R")
proof
  assume ?L
  then obtain t1 t2 t3 t4 t5 t6 t7 where
    1: "lit ''uint8_t'' t = Some t1" and 2: "many1 is_space t1 = Some t2"
    and 3: "many1 is_word t2 = Some t3" and 4: "lit ''[]'' t3 = Some t4"
    and 5: "many is_space t4 = Some t5" and 6: "lit ''='' t5 = Some t6"
    and 7: "many is_space t6 = Some t7" and 8: "lit ''{'' t7 = Some r"
    unfolding header_def by (auto simp: bind_eq_Some_conv)
  from 2 obtain w1 where w1: "t1 = w1 @ t2" "w1 \<noteq> []" "\<forall>c\<in>set w1. is_space c"
    unfolding many1_iff by blast
  from 3 obtain w where w: "t2 = w @ t3" "w \<noteq> []" "\<forall>c\<in>set w. is_word c"
    unfolding many1_iff by blast
  from 5 obtain w2 where w2: "t4 = w2 @ t5" "\<forall>c\<in>set w2. is_space c" unfolding many_iff by blast
  from 7 obtain w3 where w3: "t6 = w3 @ t7" "\<forall>c\<in>set w3. is_space c" unfolding many_iff by blast
  have "t = ''uint8_t'' @ w1 @ w @ ''[]'' @ w2 @ ''='' @ w3 @ ''{'' @ r"
    using 1 4 6 8 w1(1) w(1) w2(1) w3(1) unfolding lit_iff by simp
  then show ?R using w1 w w2 w3 by blast
next
  assume ?R
  then obtain w1 w w2 w3 where t: "t = ''uint8_t'' @ w1 @ w @ ''[]'' @ w2 @ ''='' @ w3 @ ''{'' @ r"
    and w1: "w1 \<noteq> []" "\<forall>c\<in>set w1. is_space c" and w: "w \<noteq> []" "\<forall>c\<in>set w. is_word c"
    and w2: "\<forall>c\<in>set w2. is_space c" and w3: "\<forall>c\<in>set w3. is_space c" by blast
  have 1: "lit ''uint8_t'' t = Some (w1 @ w @ ''[]'' @ w2 @ ''='' @ w3 @ ''{'' @ r)"
    unfolding lit_iff t by simp
  have "\<not> is_space (hd w)" using w by (cases w) (auto dest: class_facts(1))
  then have 2: "many1 is_space (w1 @ w @ ''[]'' @ w2 @ ''='' @ w3 @ ''{'' @ r)
      = Some (w @ ''[]'' @ w2 @ ''='' @ w3 @ ''{'' @ r)"
    unfolding many1_iff using w1 w(1) by (intro exI [of _ w1]) simp
  have 3: "many1 is_word (w @ ''[]'' @ w2 @ ''='' @ w3 @ ''{'' @ r)
      = Some (''[]'' @ w2 @ ''='' @ w3 @ ''{'' @ r)"
    unfolding many1_iff using w class_facts(2) by (intro exI [of _ w]) simp
  have 4: "lit ''[]'' (''[]'' @ w2 @ ''='' @ w3 @ ''{'' @ r) = Some (w2 @ ''='' @ w3 @ ''{'' @ r)"
    unfolding lit_iff by simp
  have 5: "many is_space (w2 @ ''='' @ w3 @ ''{'' @ r) = Some (''='' @ w3 @ ''{'' @ r)"
    unfolding many_iff using w2 class_facts(3) by (intro exI [of _ w2]) simp
  have 6: "lit ''='' (''='' @ w3 @ ''{'' @ r) = Some (w3 @ ''{'' @ r)"
    unfolding lit_iff by simp
  have 7: "many is_space (w3 @ ''{'' @ r) = Some (''{'' @ r)"
    unfolding many_iff using w3 class_facts(4) by (intro exI [of _ w3]) simp
  have 8: "lit ''{'' (''{'' @ r) = Some r" unfolding lit_iff by simp
  show ?L unfolding header_def by (simp only: 1 2 3 4 5 6 7 8 Option.bind.simps)
qed

lemma header_shape: "header t = Some r \<longleftrightarrow> (\<exists>h. t = h @ r \<and> header h = Some [])"
proof
  assume "header t = Some r"
  then obtain w1 w w2 w3 where t: "t = ''uint8_t'' @ w1 @ w @ ''[]'' @ w2 @ ''='' @ w3 @ ''{'' @ r"
    and c: "w1 \<noteq> []" "\<forall>c\<in>set w1. is_space c" "w \<noteq> []" "\<forall>c\<in>set w. is_word c"
      "\<forall>c\<in>set w2. is_space c" "\<forall>c\<in>set w3. is_space c"
    unfolding header_iff by blast
  have e: "''uint8_t'' @ w1 @ w @ ''[]'' @ w2 @ ''='' @ w3 @ ''{''
      = ''uint8_t'' @ w1 @ w @ ''[]'' @ w2 @ ''='' @ w3 @ ''{'' @ []"
    by (simp only: append_Nil2)
  have hd: "header (''uint8_t'' @ w1 @ w @ ''[]'' @ w2 @ ''='' @ w3 @ ''{'') = Some []"
    unfolding header_iff using e c
    by (intro exI [of _ w1] exI [of _ w] exI [of _ w2] exI [of _ w3] conjI)
  have "t = (''uint8_t'' @ w1 @ w @ ''[]'' @ w2 @ ''='' @ w3 @ ''{'') @ r"
    unfolding t by (simp only: append_assoc append_Cons append_Nil)
  then show "\<exists>h. t = h @ r \<and> header h = Some []" using hd by (intro exI conjI)
next
  assume "\<exists>h. t = h @ r \<and> header h = Some []"
  then obtain h where t: "t = h @ r" and h: "header h = Some []" by blast
  from h [unfolded header_iff] obtain w1 w w2 w3
    where hh: "h = ''uint8_t'' @ w1 @ w @ ''[]'' @ w2 @ ''='' @ w3 @ ''{'' @ []"
    and c: "w1 \<noteq> []" "\<forall>c\<in>set w1. is_space c" "w \<noteq> []" "\<forall>c\<in>set w. is_word c"
      "\<forall>c\<in>set w2. is_space c" "\<forall>c\<in>set w3. is_space c"
    by (elim exE conjE)
  have "t = ''uint8_t'' @ w1 @ w @ ''[]'' @ w2 @ ''='' @ w3 @ ''{'' @ r"
    unfolding t hh by (simp only: append_assoc append_Nil2 append_Cons append_Nil)
  then show "header t = Some r"
    unfolding header_iff using c
    by (intro exI [of _ w1] exI [of _ w] exI [of _ w2] exI [of _ w3] conjI)
qed

text \<open>
  The matcher finds exactly the texts the pattern describes: a header, a non-empty body
  without a closing brace, and a closing brace.
\<close>

lemma match_at_iff:
  "match_at t = Some (e1, e2) \<longleftrightarrow>
     (\<exists>h b rest. t = h @ b @ CHR ''}'' # rest \<and> header h = Some [] \<and> b \<noteq> []
        \<and> CHR ''}'' \<notin> set b \<and> e1 = length h \<and> e2 = length h + length b)"
  (is "?L \<longleftrightarrow> ?R")
proof
  assume ?L
  then obtain t1 t2 t3 where 1: "header t = Some t1"
    and 2: "many1 (\<lambda>c. c \<noteq> CHR ''}'') t1 = Some t2" and 3: "lit ''}'' t2 = Some t3"
    and e: "e1 = length t - length t1" "e2 = length t - length t2"
    unfolding match_at_def by (auto simp: bind_eq_Some_conv)
  from 1 [THEN header_shape [THEN iffD1]] obtain h where h: "t = h @ t1" "header h = Some []"
    by (elim exE conjE)
  from 2 obtain b where b: "t1 = b @ t2" "b \<noteq> []" "\<forall>c\<in>set b. c \<noteq> CHR ''}''"
    unfolding many1_iff by blast
  from 3 have t2: "t2 = CHR ''}'' # t3" unfolding lit_iff by simp
  have "t = h @ b @ CHR ''}'' # t3" using h(1) b(1) t2 by simp
  moreover have "CHR ''}'' \<notin> set b" using b(3) by blast
  moreover have "e1 = length h" "e2 = length h + length b" using e h(1) b(1) by simp_all
  ultimately show ?R using h(2) b(2) by blast
next
  assume ?R
  then obtain h b rest where t: "t = h @ b @ CHR ''}'' # rest" and h: "header h = Some []"
    and b: "b \<noteq> []" "CHR ''}'' \<notin> set b" and e: "e1 = length h" "e2 = length h + length b"
    by blast
  have 1: "header t = Some (b @ CHR ''}'' # rest)"
    by (rule header_shape [THEN iffD2], rule exI [of _ h], rule conjI, rule t, rule h)
  have 2: "many1 (\<lambda>c. c \<noteq> CHR ''}'') (b @ CHR ''}'' # rest) = Some (CHR ''}'' # rest)"
    unfolding many1_iff using b by (intro exI [of _ b]) auto
  have 3: "lit ''}'' (CHR ''}'' # rest) = Some rest" unfolding lit_iff by simp
  have l: "length t - length (b @ CHR ''}'' # rest) = e1"
    "length t - length (CHR ''}'' # rest) = e2" unfolding t e by simp_all
  show ?L unfolding match_at_def by (simp only: 1 2 3 l Option.bind.simps)
qed

lemma match_at_Nil: "match_at [] = None"
  by (simp add: match_at_def header_def lit_def)

lemma match_at_brace:
  assumes "match_at t = Some (e1, e2)"
  shows "take 1 (drop e2 t) = ''}''" and "0 < e1" and "e1 < e2" and "e2 < length t"
proof -
  obtain h b rest where t: "t = h @ b @ CHR ''}'' # rest" and h: "header h = Some []"
    and b: "b \<noteq> []" and e: "e1 = length h" "e2 = length h + length b"
    using assms unfolding match_at_iff by blast
  have "h \<noteq> []" using h by (cases h) (simp_all add: header_def lit_def)
  then show "0 < e1" using e by simp
  show "e1 < e2" using e b by simp
  show "e2 < length t" using e t by simp
  show "take 1 (drop e2 t) = ''}''" unfolding t e by simp
qed

text \<open>
  What \<^verbatim>\<open>re.sub\<close> does, in terms of \<^verbatim>\<open>re.search\<close>: a text without a match is returned as it
  is; otherwise the text up to the opening brace of the first match is kept, its body is
  replaced, its closing brace is kept, and the text behind it is treated in the same way.
\<close>

lemma re_sub_no_match: "re_search t = None \<Longrightarrow> re_sub mid t = t"
  by (induction t) (auto split: option.splits)

lemma re_sub_first_match:
  "re_search t = Some (s, e1, e2) \<Longrightarrow>
     re_sub mid t = take (s + e1) t @ mid @ ''}'' @ re_sub mid (drop (s + e2 + 1) t)"
proof (induction t arbitrary: s)
  case Nil
  then show ?case by (simp add: match_at_Nil)
next
  case (Cons c cs)
  show ?case
  proof (cases "match_at (c # cs)")
    case (Some m)
    then have m: "match_at (c # cs) = Some (e1, e2)" and s: "s = 0" using Cons.prems by auto
    note br = match_at_brace [OF m]
    have "take 1 (drop e2 (c # cs)) = ''}''" by (rule br(1))
    then show ?thesis unfolding s using m by simp
  next
    case None
    then obtain s' where s': "re_search cs = Some (s', e1, e2)" "s = Suc s'"
      using Cons.prems by auto
    show ?thesis using None Cons.IH [OF s'(1)] s'(2) by simp
  qed
qed





lemma header_brace:
  assumes "header h = Some []"
  shows "\<exists>g. h = g @ ''{'' \<and> CHR ''{'' \<notin> set g"
proof -
  from assms [unfolded header_iff] obtain w1 w w2 w3
    where hh: "h = ''uint8_t'' @ w1 @ w @ ''[]'' @ w2 @ ''='' @ w3 @ ''{'' @ []"
    and c: "\<forall>c\<in>set w1. is_space c" "\<forall>c\<in>set w. is_word c"
      "\<forall>c\<in>set w2. is_space c" "\<forall>c\<in>set w3. is_space c"
    by (elim exE conjE)
  have 1: "CHR ''{'' \<notin> set w1" "CHR ''{'' \<notin> set w2" "CHR ''{'' \<notin> set w3"
    using c class_facts(5) by blast+
  have 2: "CHR ''{'' \<notin> set w" using c class_facts(6) by blast
  have "h = (''uint8_t'' @ w1 @ w @ ''[]'' @ w2 @ ''='' @ w3) @ ''{''" unfolding hh by simp
  moreover have "CHR ''{'' \<notin> set (''uint8_t'' @ w1 @ w @ ''[]'' @ w2 @ ''='' @ w3)"
    using 1 2 by simp
  ultimately show ?thesis by blast
qed

lemma match_at_found:
  assumes h: "header h = Some []" and x: "x \<noteq> []" "hd x \<noteq> CHR ''}''" "CHR ''}'' \<in> set x"
  shows "\<exists>e2. match_at (h @ x) = Some (length h, e2)"
proof -
  define b where "b = takeWhile (\<lambda>c. c \<noteq> CHR ''}'') x"
  define r where "r = dropWhile (\<lambda>c. c \<noteq> CHR ''}'') x"
  have xs: "x = b @ r" by (simp add: b_def r_def)
  have b1: "b \<noteq> []" using x(1,2) unfolding b_def by (cases x) auto
  have b2: "CHR ''}'' \<notin> set b" unfolding b_def by (auto dest: set_takeWhileD)
  have "r \<noteq> []" using x(3) unfolding r_def by (simp add: dropWhile_eq_Nil_conv)
  moreover have "hd r = CHR ''}''" using hd_dropWhile [of "\<lambda>c. c \<noteq> CHR ''}''" x] calculation
    unfolding r_def by blast
  ultimately obtain rest where r: "r = CHR ''}'' # rest" by (cases r) auto
  have "h @ x = h @ b @ CHR ''}'' # rest" unfolding xs r by simp
  then have "match_at (h @ x) = Some (length h, length h + length b)"
    using h b1 b2 by (intro match_at_iff [THEN iffD2]) blast
  then show ?thesis by blast
qed

lemma match_at_replaced:
  assumes m: "match_at t = Some (e1, e2)" and B: "B \<noteq> []" "CHR ''}'' \<notin> set B"
  shows "match_at (take e1 t @ B @ CHR ''}'' # X) = Some (e1, e1 + length B)"
proof -
  obtain h b rest where t: "t = h @ b @ CHR ''}'' # rest" and h: "header h = Some []"
    and e: "e1 = length h"
    using m [THEN match_at_iff [THEN iffD1]] by (elim exE conjE)
  have "take e1 t = h" unfolding t e by simp
  then show ?thesis using h B e by (intro match_at_iff [THEN iffD2]) auto
qed

lemma re_search_sound:
  "re_search t = Some (s, e1, e2) \<Longrightarrow> s \<le> length t \<and> match_at (drop s t) = Some (e1, e2)"
proof (induction t arbitrary: s)
  case Nil
  then show ?case by (simp add: match_at_Nil)
next
  case (Cons c cs)
  show ?case
  proof (cases "match_at (c # cs)")
    case (Some m)
    then show ?thesis using Cons.prems by auto
  next
    case None
    then obtain s' where s': "re_search cs = Some (s', e1, e2)" "s = Suc s'"
      using Cons.prems by auto
    show ?thesis using Cons.IH [OF s'(1)] s'(2) by simp
  qed
qed

lemma re_search_hit: "match_at t = Some (e1, e2) \<Longrightarrow> re_search t = Some (0, e1, e2)"
  by (cases t) (simp_all add: match_at_Nil)

lemma re_sub_hit:
  assumes "match_at t = Some (e1, e2)"
  shows "re_sub B t = take e1 t @ B @ ''}'' @ re_sub B (drop (Suc e2) t)"
  using re_sub_first_match [OF re_search_hit [OF assms], of B] by simp

text \<open>
  A position that has no match before the substitution has none after it: a match there would
  have to end its header before the first replaced body, and then the old body would complete
  it as well.
\<close>

lemma match_at_None_stable:
  assumes B: "B \<noteq> []" "CHR ''}'' \<notin> set B" and none: "match_at (c # cs) = None"
  shows "match_at (c # re_sub B cs) = None"
proof (cases "re_search cs")
  case None
  then show ?thesis using none by (simp add: re_sub_no_match)
next
  case (Some m)
  obtain s e1 e2 where m: "m = (s, e1, e2)" by (cases m)
  note rs = Some [unfolded m]
  note snd = re_search_sound [OF rs]
  obtain h0 b0 R0 where d: "drop s cs = h0 @ b0 @ CHR ''}'' # R0" and h0: "header h0 = Some []"
    and b0: "b0 \<noteq> []" "CHR ''}'' \<notin> set b0" and e: "e1 = length h0" "e2 = length h0 + length b0"
    using snd [THEN conjunct2, THEN match_at_iff [THEN iffD1]] by (elim exE conjE)
  obtain g0 where g0: "h0 = g0 @ ''{''" using header_brace [OF h0] by blast
  define pre where "pre = c # take s cs @ g0"
  have cs: "cs = take s cs @ h0 @ b0 @ CHR ''}'' # R0"
    using d append_take_drop_id [of s cs] by simp
  have tk: "take (s + e1) cs = take s cs @ h0"
  proof -
    have "take (s + e1) cs = take s cs @ take e1 (drop s cs)" by (simp add: take_add)
    then show ?thesis unfolding d e by simp
  qed
  define R' where "R' = re_sub B (drop (s + e2 + 1) cs)"
  have new: "c # re_sub B cs = pre @ ''{'' @ B @ CHR ''}'' # R'"
    unfolding re_sub_first_match [OF rs] tk pre_def R'_def g0 by simp
  have old: "c # cs = pre @ ''{'' @ b0 @ CHR ''}'' # R0"
    unfolding pre_def using cs g0 by simp
  show ?thesis
  proof (rule ccontr)
    assume "match_at (c # re_sub B cs) \<noteq> None"
    then obtain e1' e2' where "match_at (c # re_sub B cs) = Some (e1', e2')" by auto
    from match_at_iff [THEN iffD1, OF this]
    obtain h' b' rest' where t': "c # re_sub B cs = h' @ b' @ CHR ''}'' # rest'"
      and h': "header h' = Some []" and b': "b' \<noteq> []" "CHR ''}'' \<notin> set b'"
      by (elim exE conjE)
    obtain g' where g': "h' = g' @ ''{''" "CHR ''{'' \<notin> set g'" using header_brace [OF h'] by blast
    have eq: "h' @ (b' @ CHR ''}'' # rest') = (pre @ ''{'') @ (B @ CHR ''}'' # R')"
      using t' new by simp
    from append_eq_append_conv2 [THEN iffD1, OF eq]
    obtain u where u: "h' = (pre @ ''{'') @ u \<and> u @ b' @ CHR ''}'' # rest' = B @ CHR ''}'' # R'
        \<or> h' @ u = pre @ ''{'' \<and> b' @ CHR ''}'' # rest' = u @ B @ CHR ''}'' # R'"
      by blast
    have short: False if hu: "h' @ u = pre @ ''{''" and bu: "b' @ CHR ''}'' # rest' = u @ B @ CHR ''}'' # R'" for u
    proof -
      define x where "x = u @ b0 @ CHR ''}'' # R0"
      have "c # cs = (pre @ ''{'') @ b0 @ CHR ''}'' # R0" using old by simp
      then have t: "c # cs = h' @ x" unfolding x_def hu [symmetric] by simp
      have x1: "x \<noteq> []" and x3: "CHR ''}'' \<in> set x" unfolding x_def by simp_all
      have x2: "hd x \<noteq> CHR ''}''"
      proof (cases u)
        case Nil
        then show ?thesis unfolding x_def using b0 by (cases b0) auto
      next
        case (Cons a u')
        then have "hd b' = a" using bu b'(1) by (cases b') auto
        then have "a \<noteq> CHR ''}''" using b' by (cases b') auto
        then show ?thesis unfolding x_def Cons by simp
      qed
      from match_at_found [OF h' x1 x2 x3] show False using none unfolding t by auto
    qed
    from u show False
    proof
      assume a: "h' = (pre @ ''{'') @ u \<and> u @ b' @ CHR ''}'' # rest' = B @ CHR ''}'' # R'"
      show False
      proof (cases "u = []")
        case True
        then show ?thesis using a short [of "[]"] by simp
      next
        case False
        then have "u = butlast u @ [last u]" by simp
        then obtain v z where v: "u = v @ [z]" by blast
        have "g' @ ''{'' = (pre @ ''{'' @ v) @ [z]" using a g'(1) unfolding v by simp
        then have "g' = pre @ ''{'' @ v" by (simp only: append1_eq_conv)
        then show ?thesis using g'(2) by simp
      qed
    next
      assume "h' @ u = pre @ ''{'' \<and> b' @ CHR ''}'' # rest' = u @ B @ CHR ''}'' # R'"
      then show False using short by blast
    qed
  qed
qed

lemma re_search_stable:
  assumes B: "B \<noteq> []" "CHR ''}'' \<notin> set B"
  shows "re_search t = Some (s, e1, e2) \<Longrightarrow> re_search (re_sub B t) = Some (s, e1, e1 + length B)"
proof (induction t arbitrary: s)
  case Nil
  then show ?case by (simp add: match_at_Nil)
next
  case (Cons c cs)
  show ?case
  proof (cases "match_at (c # cs)")
    case (Some m)
    then have m: "match_at (c # cs) = Some (e1, e2)" and s: "s = 0" using Cons.prems by auto
    have "re_sub B (c # cs) = take e1 (c # cs) @ B @ CHR ''}'' # re_sub B (drop (Suc e2) (c # cs))"
      using re_sub_hit [OF m, of B] by simp
    then show ?thesis unfolding s
      using re_search_hit [OF match_at_replaced [OF m B]] by simp
  next
    case None
    then obtain s' where s': "re_search cs = Some (s', e1, e2)" "s = Suc s'"
      using Cons.prems by auto
    have n: "match_at (c # re_sub B cs) = None" by (rule match_at_None_stable [OF B None])
    show ?thesis using None n Cons.IH [OF s'(1)] s'(2) by simp
  qed
qed

lemma re_sub_idem:
  assumes B: "B \<noteq> []" "CHR ''}'' \<notin> set B"
  shows "re_sub B (re_sub B t) = re_sub B t"
proof (induction t rule: length_induct)
  case (1 t)
  show ?case
  proof (cases t)
    case Nil
    then show ?thesis by simp
  next
    case (Cons c cs)
    show ?thesis
    proof (cases "match_at t")
      case None
      have n: "match_at (c # re_sub B cs) = None"
        using match_at_None_stable [OF B] None unfolding Cons by blast
      have ih: "re_sub B (re_sub B cs) = re_sub B cs" using 1 unfolding Cons by simp
      show ?thesis using None n ih unfolding Cons by simp
    next
      case (Some m)
      obtain e1 e2 where m: "match_at t = Some (e1, e2)" using Some by (cases m) auto
      define Y where "Y = re_sub B (drop (Suc e2) t)"
      have r: "re_sub B t = take e1 t @ B @ CHR ''}'' # Y"
        using re_sub_hit [OF m, of B] unfolding Y_def by simp
      have l: "length (drop (Suc e2) t) < length t" unfolding Cons by simp
      have ih: "re_sub B Y = Y" unfolding Y_def using 1 l by blast
      note m' = match_at_replaced [OF m B, of Y]
      have le: "e1 \<le> length t" using match_at_brace(3,4) [OF m] by simp
      have "re_sub B (take e1 t @ B @ CHR ''}'' # Y)
          = take e1 (take e1 t @ B @ CHR ''}'' # Y) @ B @ ''}''
            @ re_sub B (drop (Suc (e1 + length B)) (take e1 t @ B @ CHR ''}'' # Y))"
        by (rule re_sub_hit [OF m'])
      also have "take e1 (take e1 t @ B @ CHR ''}'' # Y) = take e1 t" using le by simp
      also have "drop (Suc (e1 + length B)) (take e1 t @ B @ CHR ''}'' # Y) = Y" using le by simp
      finally show ?thesis unfolding r ih by simp
    qed
  qed
qed

lemma findall_skip: "a \<noteq> CHR ''0'' \<Longrightarrow> findall_hex (a # r) = findall_hex r"
proof (cases r)
  case Nil
  then show ?thesis by simp
next
  case r1: (Cons b r1)
  assume a: "a \<noteq> CHR ''0''"
  show ?thesis
  proof (cases r1)
    case Nil
    then show ?thesis using r1 by simp
  next
    case r2: (Cons c r2)
    show ?thesis
    proof (cases r2)
      case Nil
      then show ?thesis using r1 r2 by simp
    next
      case (Cons d r3)
      then show ?thesis using r1 r2 a by simp
    qed
  qed
qed

lemma findall_token:
  "is_xdigit c \<Longrightarrow> is_xdigit d \<Longrightarrow>
     findall_hex (CHR ''0'' # CHR ''x'' # c # d # r) = [CHR ''0'', CHR ''x'', c, d] # findall_hex r"
  by simp

lemma findall_seps: "\<forall>a\<in>set u. a \<noteq> CHR ''0'' \<Longrightarrow> findall_hex (u @ r) = findall_hex r"
  by (induction u) (simp_all add: findall_skip del: findall_hex.simps)

lemma token_text_sep:
  assumes "\<forall>a\<in>set u. a \<noteq> CHR ''0'' \<and> a \<noteq> CHR ''}''"
  shows "token_text u" and "findall_hex u = []"
proof -
  have s: "\<forall>a\<in>set u. a \<noteq> CHR ''0''" using assms by blast
  show e: "findall_hex u = []" using findall_seps [OF s, of "[]"] by simp
  show "token_text u" unfolding token_text_def using findall_seps [OF s] e assms by auto
qed

lemma token_text_append:
  assumes "token_text u" "token_text v"
  shows "token_text (u @ v)" and "findall_hex (u @ v) = findall_hex u @ findall_hex v"
proof -
  show e: "findall_hex (u @ v) = findall_hex u @ findall_hex v"
    using assms(1) unfolding token_text_def by blast
  have "findall_hex ((u @ v) @ rest) = findall_hex (u @ v) @ findall_hex rest" for rest
  proof -
    have "findall_hex (u @ (v @ rest)) = findall_hex u @ findall_hex (v @ rest)"
      using assms(1) unfolding token_text_def by blast
    also have "findall_hex (v @ rest) = findall_hex v @ findall_hex rest"
      using assms(2) unfolding token_text_def by blast
    finally show ?thesis unfolding e by simp
  qed
  then show "token_text (u @ v)" using assms unfolding token_text_def by auto
qed

lemma bytes_hex:
  "\<forall>b\<in>set [0..<256].
     (case format_02x (int b) of
        [c, d] \<Rightarrow> is_xdigit c \<and> is_xdigit d \<and> c \<noteq> CHR ''}'' \<and> d \<noteq> CHR ''}''
                  \<and> int_hex [CHR ''0'', CHR ''x'', c, d] = int b
      | _ \<Rightarrow> False)"
  by code_simp

lemma byte_hex:
  assumes "0 \<le> b" "b \<le> 255"
  obtains c d where "format_02x b = [c, d]" "is_xdigit c" "is_xdigit d"
    "c \<noteq> CHR ''}''" "d \<noteq> CHR ''}''" "int_hex [CHR ''0'', CHR ''x'', c, d] = b"
proof -
  define n where "n = nat b"
  have b: "b = int n" and m: "n \<in> set [0..<256]" using assms by (simp_all add: n_def)
  from bytes_hex [rule_format, OF m] show ?thesis
    unfolding b [symmetric] using that by (auto split: list.splits)
qed

lemma token_text_byte:
  assumes "0 \<le> b" "b \<le> 255"
  shows "token_text (''0x'' @ format_02x b)"
    and "map int_hex (findall_hex (''0x'' @ format_02x b)) = [b]"
proof -
  obtain c d where f: "format_02x b = [c, d]" and x: "is_xdigit c" "is_xdigit d"
    and n: "c \<noteq> CHR ''}''" "d \<noteq> CHR ''}''" and v: "int_hex [CHR ''0'', CHR ''x'', c, d] = b"
    using assms by (rule byte_hex)
  have t: "findall_hex (CHR ''0'' # CHR ''x'' # c # d # r) = [CHR ''0'', CHR ''x'', c, d] # findall_hex r" for r
    using x by (rule findall_token)
  show "map int_hex (findall_hex (''0x'' @ format_02x b)) = [b]"
    unfolding f using t [of "[]"] v by simp
  show "token_text (''0x'' @ format_02x b)"
    unfolding f token_text_def using t [of "[]"] t n by simp
qed

lemma token_text_pixel:
  assumes "0 \<le> b" "b \<le> 255" "0 \<le> g" "g \<le> 255" "0 \<le> r" "r \<le> 255" "0 \<le> a" "a \<le> 255"
  shows "token_text (format_pixel b g r a)"
    and "map int_hex (findall_hex (format_pixel b g r a)) = [b, g, r, a]"
proof -
  have s: "token_text '', ''" "findall_hex '', '' = []" by (rule token_text_sep, simp)+
  note tb = token_text_byte [OF assms(1,2)] and tg = token_text_byte [OF assms(3,4)]
    and tr = token_text_byte [OF assms(5,6)] and ta = token_text_byte [OF assms(7,8)]
  have e: "format_pixel b g r a
      = (''0x'' @ format_02x b) @ '', '' @ (''0x'' @ format_02x g) @ '', ''
          @ (''0x'' @ format_02x r) @ '', '' @ (''0x'' @ format_02x a)"
    by (simp add: format_pixel_def)
  note 1 = token_text_append [OF s(1) ta(1)]
  note 2 = token_text_append [OF tr(1) 1(1)]
  note 3 = token_text_append [OF s(1) 2(1)]
  note 4 = token_text_append [OF tg(1) 3(1)]
  note 5 = token_text_append [OF s(1) 4(1)]
  note 6 = token_text_append [OF tb(1) 5(1)]
  show "token_text (format_pixel b g r a)" unfolding e by (rule 6(1))
  show "map int_hex (findall_hex (format_pixel b g r a)) = [b, g, r, a]"
    unfolding e 6(2) 5(2) 4(2) 3(2) 2(2) 1(2) s(2) using tb(2) tg(2) tr(2) ta(2) by simp
qed

lemma token_text_join:
  assumes s: "token_text sep" "findall_hex sep = []"
  shows "\<forall>x\<in>set xs. token_text x \<Longrightarrow>
     token_text (join sep xs) \<and> findall_hex (join sep xs) = concat (map findall_hex xs)"
proof (induction xs rule: induct_list012)
  case 1
  then show ?case by (simp add: token_text_def)
next
  case (2 x)
  then show ?case by simp
next
  case (3 x y ys)
  have ih: "token_text (join sep (y # ys))"
    "findall_hex (join sep (y # ys)) = concat (map findall_hex (y # ys))"
    using 3 by simp_all
  have x: "token_text x" using 3 by simp
  note a = token_text_append [OF s(1) ih(1)]
  note b = token_text_append [OF x a(1)]
  show ?case using b a ih(2) s(2) by simp
qed

lemma token_text_line:
  assumes "\<forall>p\<in>set lp. token_text p"
  shows "token_text (format_line lp)"
    and "findall_hex (format_line lp) = concat (map findall_hex lp)"
proof -
  have s: "token_text '', ''" "findall_hex '', '' = []" by (rule token_text_sep, simp)+
  have i: "token_text ''  ''" "findall_hex ''  '' = []" by (rule token_text_sep, simp)+
  have c: "token_text '',''" "findall_hex '','' = []" by (rule token_text_sep, simp)+
  note j = token_text_join [OF s assms]
  note 1 = token_text_append [OF j [THEN conjunct1] c(1)]
  note 2 = token_text_append [OF i(1) 1(1)]
  show "token_text (format_line lp)" unfolding format_line_def by (rule 2(1))
  show "findall_hex (format_line lp) = concat (map findall_hex lp)"
    unfolding format_line_def 2(2) 1(2) i(2) c(2) j [THEN conjunct2] by simp
qed

text \<open>
  The state of the loop of \<^verbatim>\<open>format_output\<close> after \<open>n\<close> rounds: the finished lines and the
  pixels of the current line hold the first \<open>4 n\<close> values, in order.
\<close>

lemma format_loop_state:
  assumes bytes: "\<forall>b\<in>set pixels. 0 \<le> b \<and> b \<le> 255"
  shows "for_each (format_step pixels width) (map (\<lambda>k. 4 * k) [0..<n]) ([], []) = Inr (lines, lp) \<Longrightarrow>
     (\<forall>l\<in>set lines. token_text l) \<and> (\<forall>p\<in>set lp. token_text p)
     \<and> concat (map (\<lambda>l. map int_hex (findall_hex l)) lines)
         @ concat (map (\<lambda>p. map int_hex (findall_hex p)) lp) = take (4 * n) pixels"
proof (induction n arbitrary: lines lp)
  case 0
  then show ?case by simp
next
  case (Suc n)
  have "for_each (format_step pixels width) (map (\<lambda>k. 4 * k) [0..<n] @ [4 * n]) ([], []) = Inr (lines, lp)"
    using Suc.prems by simp
  then obtain st0 where p0: "for_each (format_step pixels width) (map (\<lambda>k. 4 * k) [0..<n]) ([], []) = Inr st0"
    and st: "format_step pixels width (4 * n) st0 = Inr (lines, lp)"
    unfolding for_each_append by (auto dest!: and_then_InrD)
  obtain l0 q0 where st0: "st0 = (l0, q0)" by (cases st0)
  note ih = Suc.IH [OF p0 [unfolded st0]]
  define l1 where "l1 = (if 0 < n \<and> (int (4 * n) div 4) mod width = 0 then l0 @ [format_line q0] else l0)"
  define q1 where "q1 = (if 0 < n \<and> (int (4 * n) div 4) mod width = 0 then [] else q0)"
  obtain b g r a where u: "take 4 (drop (4 * n) pixels) = [b, g, r, a]"
    and res: "lines = l1" "lp = q1 @ [format_pixel b g r a]"
    using st unfolding st0 format_step_def l1_def q1_def
    by (auto dest!: and_then_InrD split: if_splits list.splits)
  have "set [b, g, r, a] \<subseteq> set pixels"
    unfolding u [symmetric] using set_take_subset set_drop_subset by fast
  then have bs: "0 \<le> b" "b \<le> 255" "0 \<le> g" "g \<le> 255" "0 \<le> r" "r \<le> 255" "0 \<le> a" "a \<le> 255"
    using bytes by auto
  note px = token_text_pixel [OF bs]
  note ln = token_text_line [of q0, OF ih [THEN conjunct2, THEN conjunct1]]
  have t1: "\<forall>l\<in>set l1. token_text l" using ih ln(1) unfolding l1_def by auto
  have t2: "\<forall>p\<in>set q1. token_text p" using ih unfolding q1_def by auto
  have v: "concat (map (\<lambda>l. map int_hex (findall_hex l)) l1)
         @ concat (map (\<lambda>p. map int_hex (findall_hex p)) q1) = take (4 * n) pixels"
    using ih [THEN conjunct2, THEN conjunct2] unfolding l1_def q1_def
    by (simp add: ln(2) map_concat comp_def)
  have tk: "take (4 * Suc n) pixels = take (4 * n) pixels @ [b, g, r, a]"
    using take_add [of "4 * n" 4 pixels] u by (simp add: add.commute)
  show ?case unfolding res tk using t1 t2 px v by simp
qed

lemma array_body_bytes:
  assumes bytes: "\<forall>b\<in>set pixels. 0 \<le> b \<and> b \<le> 255"
    and body: "array_body pixels width = Inr body"
  shows "body \<noteq> []" and "CHR ''}'' \<notin> set body" and "map int_hex (findall_hex body) = pixels"
proof -
  define N where "N = (length pixels + 3) div 4"
  obtain lines lp where lo: "for_each (format_step pixels width) (map (\<lambda>k. 4 * k) [0..<N]) ([], []) = Inr (lines, lp)"
    and b: "body = [CHR 0x0A] @ join [CHR 0x0A] (if lp \<noteq> [] then lines @ [format_line lp] else lines) @ [CHR 0x0A]"
    using body unfolding array_body_def N_def Let_def by (auto dest!: and_then_InrD)
  note st = format_loop_state [OF bytes lo]
  define ls where "ls = (if lp \<noteq> [] then lines @ [format_line lp] else lines)"
  note ln = token_text_line [of lp, OF st [THEN conjunct2, THEN conjunct1]]
  have t: "\<forall>l\<in>set ls. token_text l" using st ln(1) unfolding ls_def by auto
  have "length pixels \<le> 4 * N" unfolding N_def by simp
  then have all: "take (4 * N) pixels = pixels" by simp
  have v: "concat (map (\<lambda>l. map int_hex (findall_hex l)) ls) = pixels"
    using st [THEN conjunct2, THEN conjunct2] unfolding ls_def all
    by (cases "lp = []") (simp_all add: ln(2) map_concat comp_def)
  have nl: "token_text [CHR 0x0A]" "findall_hex [CHR 0x0A] = []" by (rule token_text_sep, simp)+
  note j = token_text_join [OF nl t]
  note 1 = token_text_append [OF j [THEN conjunct1] nl(1)]
  note 2 = token_text_append [OF nl(1) 1(1)]
  have bb: "body = [CHR 0x0A] @ join [CHR 0x0A] ls @ [CHR 0x0A]" unfolding b ls_def ..
  show "body \<noteq> []" unfolding bb by simp
  show "CHR ''}'' \<notin> set body" using 2(1) unfolding bb token_text_def by blast
  show "map int_hex (findall_hex body) = pixels"
    unfolding bb 2(2) 1(2) nl(2) j [THEN conjunct2] using v by (simp add: map_concat comp_def)
qed

lemma round_trip_run:
  "format_output [255, 0, 16, 171] ''const uint8_t icon[] = { 0xff };'' 1
     = Inr ''const uint8_t icon[] = {\<newline>  0xff, 0x00, 0x10, 0xab,\<newline>};''"
  "parse_c_file ''const uint8_t icon[] = {\<newline>  0xff, 0x00, 0x10, 0xab,\<newline>};''
     = Inr ([255, 0, 16, 171], ''const uint8_t icon[] = {\<newline>  0xff, 0x00, 0x10, 0xab,\<newline>};'', ''icon'')"
  "array_body [255, 0, 16, 171] 1 = Inr ''\<newline>  0xff, 0x00, 0x10, 0xab,\<newline>''"
  "re_search ''const uint8_t icon[] = {\<newline>  0xff, 0x00, 0x10, 0xab,\<newline>};'' = Some (6, 18, 45)"
  by code_simp+


section \<open>Claims about the pixel transformer\<close>

text \<open>
  C8. For every input byte sequence whose length equals \<open>width * height * 4\<close>, the output
  sequence of the pixel transformer has exactly the length of the input sequence.
\<close>

theorem apply_modifications_length:
  assumes "int (length pixels) = width * height * 4"
    and "apply_modifications pw pixels width height radius max_shadow = Inr out"
  shows "length out = length pixels"
  using assms transform_loop_length [of pw width height radius max_shadow pixels out]
  by (simp add: apply_modifications_def)

theorem apply_modifications_length_witness:
  "int (length [10, 20, 30, 40 :: int]) = 1 * 1 * 4
   \<and> apply_modifications pow_rounded [10, 20, 30, 40] 1 1 (Fin 1) (Fin (1 / 2)) = Inr [0, 0, 0, 0]
   \<and> length [0, 0, 0, 0 :: int] = length [10, 20, 30, 40 :: int]"
proof -
  have h: "int (length [10, 20, 30, 40 :: int]) = 1 * 1 * 4" by simp
  show ?thesis
    by (intro conjI, rule h, rule run_1x1, rule apply_modifications_length [OF h run_1x1])
qed

text \<open>
  C7. For every pixel whose corner-distance is greater than or equal to 1.0, all four
  output channels (channel0, channel1, channel2, alpha) are 0 after the transform.
\<close>

theorem corner_clipping_totality:
  assumes run: "apply_modifications pw pixels width height radius max_shadow = Inr out"
    and x: "x < nat width" and y: "y < nat height"
    and d: "distance_to_corner pw (int x) (int y) width height radius = Inr d"
    and ge: "fge d (Fin 1)"
  shows "out ! pixel_index width y x = 0 \<and> out ! (pixel_index width y x + 1) = 0
       \<and> out ! (pixel_index width y x + 2) = 0 \<and> out ! (pixel_index width y x + 3) = 0"
proof -
  define idx where "idx = pixel_index width y x"
  note r = apply_modifications_InrD [OF run]
  have rng: "idx + 4 \<le> length pixels" unfolding idx_def using r(1) x y by (rule pixel_index_in_range)
  have "out ! idx = 0 \<and> out ! (idx + 1) = 0 \<and> out ! (idx + 2) = 0 \<and> out ! (idx + 3) = 0"
  proof (rule pixel_result [OF r(2) x y], fold idx_def)
    fix m m'
    assume b: "pixel_body pw width height radius max_shadow y x m = Inr m'"
      and l: "length m = length pixels"
      and o: "\<And>j. idx \<le> j \<Longrightarrow> j < idx + 4 \<Longrightarrow> out ! j = m' ! j"
    have m': "m' = m[idx := 0, idx + 1 := 0, idx + 2 := 0, idx + 3 := 0]"
      using b unfolding pixel_body_clip [OF d ge] idx_def by simp
    have z: "m' ! idx = 0" "m' ! (idx + 1) = 0" "m' ! (idx + 2) = 0" "m' ! (idx + 3) = 0"
      unfolding m' using rng l by simp_all
    have e: "out ! idx = m' ! idx" "out ! (idx + 1) = m' ! (idx + 1)"
      "out ! (idx + 2) = m' ! (idx + 2)" "out ! (idx + 3) = m' ! (idx + 3)"
      by (rule o, simp, simp)+
    show ?thesis using z e by simp
  qed
  then show ?thesis unfolding idx_def .
qed

theorem corner_clipping_totality_witness:
  "apply_modifications pow_rounded [10, 20, 30, 40] 1 1 (Fin 1) (Fin (1 / 2)) = Inr [0, 0, 0, 0]
   \<and> (0::nat) < nat 1
   \<and> distance_to_corner pow_rounded (int 0) (int 0) 1 1 (Fin 1) = Inr (Fin 1)
   \<and> fge (Fin 1) (Fin 1)
   \<and> ([0, 0, 0, 0] ! pixel_index 1 0 0 = (0::int) \<and> [0, 0, 0, 0] ! (pixel_index 1 0 0 + 1) = (0::int)
      \<and> [0, 0, 0, 0] ! (pixel_index 1 0 0 + 2) = (0::int) \<and> [0, 0, 0, 0] ! (pixel_index 1 0 0 + 3) = (0::int))"
proof -
  have p: "(0::nat) < nat 1" by simp
  have d: "distance_to_corner pow_rounded (int 0) (int 0) 1 1 (Fin 1) = Inr (Fin 1)" using dist_1x1 by simp
  have g: "fge (Fin 1) (Fin 1)" by (simp add: fge_def)
  show ?thesis
    by (intro conjI, rule run_1x1, rule p, rule d, rule g,
        rule corner_clipping_totality [OF run_1x1 p p d g, THEN conjunct1],
        rule corner_clipping_totality [OF run_1x1 p p d g, THEN conjunct2, THEN conjunct1],
        rule corner_clipping_totality [OF run_1x1 p p d g, THEN conjunct2, THEN conjunct2, THEN conjunct1],
        rule corner_clipping_totality [OF run_1x1 p p d g, THEN conjunct2, THEN conjunct2, THEN conjunct2])
qed

text \<open>
  C5. For every pixel whose corner-distance \<open>d\<close> satisfies \<open>0 < d < 1\<close>, the transformer
  leaves the three colour channels equal to their input values and sets only the alpha channel,
  to \<open>floor(a * (1 - d))\<close> (the float product, truncated), so that the output alpha of a byte
  \<open>a\<close> is at most the input alpha.
\<close>

theorem alpha_only_fade:
  assumes run: "apply_modifications pw pixels width height radius max_shadow = Inr out"
    and x: "x < nat width" and y: "y < nat height"
    and d: "distance_to_corner pw (int x) (int y) width height radius = Inr d"
    and d0: "flt (Fin 0) d" and d1: "flt d (Fin 1)"
    and a: "0 \<le> pixels ! (pixel_index width y x + 3)" "pixels ! (pixel_index width y x + 3) \<le> 255"
  shows "out ! pixel_index width y x = pixels ! pixel_index width y x
       \<and> out ! (pixel_index width y x + 1) = pixels ! (pixel_index width y x + 1)
       \<and> out ! (pixel_index width y x + 2) = pixels ! (pixel_index width y x + 2)
       \<and> (\<exists>q. fmul (Fin (of_int (pixels ! (pixel_index width y x + 3)))) (fsub (Fin 1) d) = Fin q
             \<and> out ! (pixel_index width y x + 3) = \<lfloor>q\<rfloor>)
       \<and> 0 \<le> out ! (pixel_index width y x + 3)
       \<and> out ! (pixel_index width y x + 3) \<le> pixels ! (pixel_index width y x + 3)"
proof -
  define idx where "idx = pixel_index width y x"
  define al where "al = pixels ! (idx + 3)"
  note r = apply_modifications_InrD [OF run]
  have rng: "idx + 4 \<le> length pixels" unfolding idx_def using r(1) x y by (rule pixel_index_in_range)
  obtain dq where dq: "d = Fin dq" "0 < dq" "dq < 1" using d0 d1 by (rule flt_FinD)
  have "\<exists>q1. rnd (1 - dq) = Fin q1 \<and> 0 \<le> q1 \<and> q1 \<le> 1"
    using dq by (intro rnd_between) simp_all
  then obtain q1 where q1: "rnd (1 - dq) = Fin q1" "0 \<le> q1" "q1 \<le> 1" by (elim exE conjE)
  have al: "0 \<le> al" "al \<le> 255" using a by (simp_all add: al_def idx_def)
  have ald: "is_double (of_int al)" using al by (intro is_double_int) simp
  have "\<exists>q. rnd (of_int al * q1) = Fin q \<and> 0 \<le> q \<and> q \<le> of_int al"
    using al q1 ald by (intro rnd_between) (simp_all add: mult_left_le)
  then obtain q where q: "rnd (of_int al * q1) = Fin q" "0 \<le> q" "q \<le> of_int al" by (elim exE conjE)
  have s1: "fsub (Fin 1) d = Fin q1" by (simp add: fsub_def dq q1)
  have tf: "to_float al = Inr (Fin (of_int al))" using al by (intro to_float_small) simp
  have sc: "scale_channel al (fsub (Fin 1) d) = Inr \<lfloor>q\<rfloor>"
    using q by (simp add: scale_channel_def s1 tf trunc_nonneg)
  have c: "\<not> fge d (Fin 1)" "fgt d (exact 0)" using dq by (simp_all add: fge_def fgt_def exact_def)
  have fm: "fmul (Fin (of_int al)) (fsub (Fin 1) d) = Fin q" by (simp add: s1 q)
  have fl: "0 \<le> \<lfloor>q\<rfloor>" "\<lfloor>q\<rfloor> \<le> al" using q by (simp_all add: floor_le_iff)
  have "out ! idx = pixels ! idx \<and> out ! (idx + 1) = pixels ! (idx + 1)
      \<and> out ! (idx + 2) = pixels ! (idx + 2) \<and> out ! (idx + 3) = \<lfloor>q\<rfloor>"
  proof (rule pixel_result [OF r(2) x y], fold idx_def)
    fix m m'
    assume b: "pixel_body pw width height radius max_shadow y x m = Inr m'"
      and l: "length m = length pixels"
      and i: "\<And>j. idx \<le> j \<Longrightarrow> j < idx + 4 \<Longrightarrow> m ! j = pixels ! j"
      and o: "\<And>j. idx \<le> j \<Longrightarrow> j < idx + 4 \<Longrightarrow> out ! j = m' ! j"
    have ma: "m ! (idx + 3) = al" unfolding al_def by (rule i) simp_all
    have "scale_channel (m ! (pixel_index width y x + 3)) (fsub (Fin 1) d) = Inr \<lfloor>q\<rfloor>"
      using sc ma by (simp add: idx_def)
    from pixel_body_fade [OF d c this] b have m': "m' = m[idx + 3 := \<lfloor>q\<rfloor>]"
      by (simp add: idx_def)
    have z: "m' ! idx = m ! idx" "m' ! (idx + 1) = m ! (idx + 1)" "m' ! (idx + 2) = m ! (idx + 2)"
      "m' ! (idx + 3) = \<lfloor>q\<rfloor>"
      unfolding m' using rng l by simp_all
    have e: "out ! idx = m' ! idx" "out ! (idx + 1) = m' ! (idx + 1)"
      "out ! (idx + 2) = m' ! (idx + 2)" "out ! (idx + 3) = m' ! (idx + 3)"
      by (rule o, simp, simp)+
    have f: "m ! idx = pixels ! idx" "m ! (idx + 1) = pixels ! (idx + 1)"
      "m ! (idx + 2) = pixels ! (idx + 2)"
      by (rule i, simp, simp)+
    show ?thesis using z e f by simp
  qed
  then show ?thesis using fm fl unfolding idx_def [symmetric] al_def [symmetric] by simp
qed

theorem alpha_only_fade_witness:
  "\<exists>d. apply_modifications pow_rounded [1, 2, 3, 4, 5, 6, 7, 8, 9, 10, 11, 12, 20, 30, 40, 8] 2 2 (Fin 2) (Fin (1 / 2))
          = Inr [0, 0, 0, 0, 0, 0, 0, 0, 0, 0, 0, 0, 20, 30, 40, 3]
     \<and> (1::nat) < nat 2
     \<and> distance_to_corner pow_rounded (int 1) (int 1) 2 2 (Fin 2) = Inr d
     \<and> flt (Fin 0) d \<and> flt d (Fin 1)
     \<and> 0 \<le> [1, 2, 3, 4, 5, 6, 7, 8, 9, 10, 11, 12, 20, 30, 40, 8 :: int] ! (pixel_index 2 1 1 + 3)
     \<and> [1, 2, 3, 4, 5, 6, 7, 8, 9, 10, 11, 12, 20, 30, 40, 8 :: int] ! (pixel_index 2 1 1 + 3) \<le> 255
     \<and> ([0, 0, 0, 0, 0, 0, 0, 0, 0, 0, 0, 0, 20, 30, 40, 3] ! pixel_index 2 1 1
           = [1, 2, 3, 4, 5, 6, 7, 8, 9, 10, 11, 12, 20, 30, 40, 8 :: int] ! pixel_index 2 1 1
       \<and> [0, 0, 0, 0, 0, 0, 0, 0, 0, 0, 0, 0, 20, 30, 40, 3] ! (pixel_index 2 1 1 + 1)
           = [1, 2, 3, 4, 5, 6, 7, 8, 9, 10, 11, 12, 20, 30, 40, 8 :: int] ! (pixel_index 2 1 1 + 1)
       \<and> [0, 0, 0, 0, 0, 0, 0, 0, 0, 0, 0, 0, 20, 30, 40, 3] ! (pixel_index 2 1 1 + 2)
           = [1, 2, 3, 4, 5, 6, 7, 8, 9, 10, 11, 12, 20, 30, 40, 8 :: int] ! (pixel_index 2 1 1 + 2)
       \<and> (\<exists>q. fmul (Fin (of_int ([1, 2, 3, 4, 5, 6, 7, 8, 9, 10, 11, 12, 20, 30, 40, 8] ! (pixel_index 2 1 1 + 3))))
                 (fsub (Fin 1) d) = Fin q
             \<and> [0, 0, 0, 0, 0, 0, 0, 0, 0, 0, 0, 0, 20, 30, 40, 3] ! (pixel_index 2 1 1 + 3) = \<lfloor>q\<rfloor>)
       \<and> 0 \<le> [0, 0, 0, 0, 0, 0, 0, 0, 0, 0, 0, 0, 20, 30, 40, 3 :: int] ! (pixel_index 2 1 1 + 3)
       \<and> [0, 0, 0, 0, 0, 0, 0, 0, 0, 0, 0, 0, 20, 30, 40, 3] ! (pixel_index 2 1 1 + 3)
           \<le> [1, 2, 3, 4, 5, 6, 7, 8, 9, 10, 11, 12, 20, 30, 40, 8 :: int] ! (pixel_index 2 1 1 + 3))"
proof -
  obtain d where d: "distance_to_corner pow_rounded 1 1 2 2 (Fin 2) = Inr (Fin d)" "9 / 16 \<le> d" "d \<le> 5 / 8"
    using dist_2x2_band by (elim exE conjE)
  have p: "(1::nat) < nat 2" by simp
  have dd: "distance_to_corner pow_rounded (int 1) (int 1) 2 2 (Fin 2) = Inr (Fin d)" using d(1) by simp
  have d0: "flt (Fin 0) (Fin d)" and d1: "flt (Fin d) (Fin 1)" using d(2,3) by simp_all
  have a0: "0 \<le> [1, 2, 3, 4, 5, 6, 7, 8, 9, 10, 11, 12, 20, 30, 40, 8 :: int] ! (pixel_index 2 1 1 + 3)"
    and a1: "[1, 2, 3, 4, 5, 6, 7, 8, 9, 10, 11, 12, 20, 30, 40, 8 :: int] ! (pixel_index 2 1 1 + 3) \<le> 255"
    by (simp_all add: pixel_index_def)
  note c = alpha_only_fade [OF run_2x2 p p dd d0 d1 a0 a1]
  show ?thesis
    by (rule exI [of _ "Fin d"]) (intro c run_2x2 p dd d0 d1 a0 a1 conjI)
qed

text \<open>
  C4. For every byte sequence whose length differs from \<open>width * height * 4\<close> the pixel
  transformer raises the dimension-mismatch error, before it copies, reads or writes any
  pixel: the store is the one it was called with. For every byte sequence whose length equals
  \<open>width * height * 4\<close> that error is not raised.
\<close>

theorem dimension_mismatch_rejection:
  "(int (length (st ! pixels)) \<noteq> width * height * 4 \<longrightarrow>
      apply_modifications pw (st ! pixels) width height radius max_shadow = Inl DimensionError
      \<and> apply_modifications_st pw st pixels width height radius max_shadow = (st, Inl DimensionError))
   \<and> (int (length (st ! pixels)) = width * height * 4 \<longrightarrow>
      apply_modifications pw (st ! pixels) width height radius max_shadow \<noteq> Inl DimensionError
      \<and> snd (apply_modifications_st pw st pixels width height radius max_shadow) \<noteq> Inl DimensionError)"
proof -
  have ne: "apply_modifications pw (st ! pixels) width height radius max_shadow \<noteq> Inl DimensionError"
    if "int (length (st ! pixels)) = width * height * 4"
    using that by (simp add: apply_modifications_def transform_loop_no_dim)
  have "snd (apply_modifications_st pw st pixels width height radius max_shadow) \<noteq> Inl DimensionError"
    if eq: "int (length (st ! pixels)) = width * height * 4"
    using apply_modifications_st_cases [OF eq, of pw radius max_shadow] ne [OF eq]
    by (cases "apply_modifications pw (st ! pixels) width height radius max_shadow") auto
  then show ?thesis
    using ne by (simp add: apply_modifications_def apply_modifications_st_def)
qed

theorem dimension_mismatch_rejection_witness:
  "(int (length ([[1, 2, 3 :: int]] ! 0)) \<noteq> 1 * 1 * 4
    \<and> apply_modifications pow_rounded ([[1, 2, 3]] ! 0) 1 1 (Fin 1) (Fin (1 / 2)) = Inl DimensionError
    \<and> apply_modifications_st pow_rounded [[1, 2, 3]] 0 1 1 (Fin 1) (Fin (1 / 2)) = ([[1, 2, 3]], Inl DimensionError))
   \<and> (int (length ([[10, 20, 30, 40 :: int]] ! 0)) = 1 * 1 * 4
    \<and> apply_modifications pow_rounded ([[10, 20, 30, 40]] ! 0) 1 1 (Fin 1) (Fin (1 / 2)) \<noteq> Inl DimensionError
    \<and> snd (apply_modifications_st pow_rounded [[10, 20, 30, 40]] 0 1 1 (Fin 1) (Fin (1 / 2))) \<noteq> Inl DimensionError)"
proof -
  have a: "int (length ([[1, 2, 3 :: int]] ! 0)) \<noteq> 1 * 1 * 4" by simp
  have b: "int (length ([[10, 20, 30, 40 :: int]] ! 0)) = 1 * 1 * 4" by simp
  note t1 = dimension_mismatch_rejection [of "[[1, 2, 3]]" 0 1 1 pow_rounded "Fin 1" "Fin (1 / 2)", THEN conjunct1, rule_format, OF a]
  note t2 = dimension_mismatch_rejection [of "[[10, 20, 30, 40]]" 0 1 1 pow_rounded "Fin 1" "Fin (1 / 2)", THEN conjunct2, rule_format, OF b]
  show ?thesis by (intro conjI a b t1 [THEN conjunct1] t1 [THEN conjunct2] t2 [THEN conjunct1] t2 [THEN conjunct2])
qed

text \<open>
  C9. The pixel transformer never mutates its input sequence. On the store: every write of
  the loop goes to the address of the copy made by \<^verbatim>\<open>list(pixels)\<close>, so after the call the list
  at the input address, and every other list of the caller's store, is what it was before,
  also when the call raises; the result is a new list at a fresh address, and it is the result
  of the transform.
\<close>

theorem input_not_mutated:
  assumes p: "pixels < length st"
    and run: "apply_modifications_st pw st pixels width height radius max_shadow = (st', res)"
  shows "st' ! pixels = st ! pixels
       \<and> (\<forall>a < length st. st' ! a = st ! a)
       \<and> (\<forall>m. res = Inr m \<longrightarrow> m = length st \<and> m \<noteq> pixels
              \<and> apply_modifications pw (st ! pixels) width height radius max_shadow = Inr (st' ! m))"
proof (cases "int (length (st ! pixels)) = width * height * 4")
  case False
  then have "st' = st" "res = Inl DimensionError"
    using run by (simp_all add: apply_modifications_st_def)
  then show ?thesis by simp
next
  case True
  note c = apply_modifications_st_cases [OF True, of pw radius max_shadow]
  show ?thesis
  proof (cases "apply_modifications pw (st ! pixels) width height radius max_shadow")
    case (Inl e)
    then obtain l where "st' = st @ [l]" "res = Inl e" using c run by auto
    then show ?thesis using p by (simp add: nth_append)
  next
    case (Inr out)
    then have "st' = st @ [out]" "res = Inr (length st)" using c run by simp_all
    then show ?thesis using p Inr by (simp add: nth_append)
  qed
qed

theorem input_not_mutated_witness:
  "(0::nat) < length [[10, 20, 30, 40 :: int]]
   \<and> apply_modifications_st pow_rounded [[10, 20, 30, 40]] 0 1 1 (Fin 1) (Fin (1 / 2))
       = ([[10, 20, 30, 40], [0, 0, 0, 0]], Inr 1)
   \<and> [[10, 20, 30, 40], [0, 0, 0, 0]] ! 0 = [[10, 20, 30, 40 :: int]] ! 0
   \<and> (1::nat) = length [[10, 20, 30, 40 :: int]] \<and> (1::nat) \<noteq> 0
   \<and> apply_modifications pow_rounded ([[10, 20, 30, 40]] ! 0) 1 1 (Fin 1) (Fin (1 / 2))
       = Inr ([[10, 20, 30, 40], [0, 0, 0, 0]] ! 1)"
proof -
  have p: "(0::nat) < length [[10, 20, 30, 40 :: int]]" by simp
  have run: "apply_modifications_st pow_rounded [[10, 20, 30, 40]] 0 1 1 (Fin 1) (Fin (1 / 2))
       = ([[10, 20, 30, 40], [0, 0, 0, 0]], Inr 1)"
    using apply_modifications_st_cases [of "[[10, 20, 30, 40]]" 0 1 1 pow_rounded "Fin 1" "Fin (1 / 2)"]
      run_1x1
    by simp
  note c = input_not_mutated [OF p run]
  note r = c [THEN conjunct2, THEN conjunct2, rule_format, OF refl]
  show ?thesis
    by (intro conjI p run c [THEN conjunct1] r [THEN conjunct1]
        r [THEN conjunct2, THEN conjunct1] r [THEN conjunct2, THEN conjunct2])
qed


section \<open>Claims about the geometry helpers\<close>

text \<open>
  C10. For every integer height \<open>\<ge> 1\<close> the shadow-start threshold \<open>int(height * 0.7)\<close>
  is strictly less than height, so the divisor \<open>height - shadow_start\<close> of the shadow-factor
  computation is at least 1 and the division never is a division by zero, for any row.
\<close>

theorem shadow_start_below_height:
  assumes h: "1 \<le> height"
  shows "(\<forall>s. shadow_start_of height = Inr s \<longrightarrow> 0 \<le> s \<and> s < height \<and> 1 \<le> height - s)
       \<and> (\<forall>y m. get_shadow_factor y height m \<noteq> Inl ZeroDivisionError)
       \<and> (height < 2 ^ 53 \<longrightarrow> (\<exists>s. shadow_start_of height = Inr s))"
proof (intro conjI allI impI)
  fix s assume s: "shadow_start_of height = Inr s"
  from shadow_start_bound [OF h s] show "0 \<le> s" "s < height" "1 \<le> height - s" by simp_all
next
  fix y m
  show "get_shadow_factor y height m \<noteq> Inl ZeroDivisionError"
  proof (cases "shadow_start_of height")
    case (Inl e)
    then show ?thesis using shadow_start_of_no_zdiv [of height] by (simp add: get_shadow_factor_def)
  next
    case (Inr s)
    then have "height - s \<noteq> 0" using shadow_start_bound [OF h Inr] by simp
    then have "int_truediv (y - s) (height - s) \<noteq> Inl ZeroDivisionError"
      by (simp add: int_truediv_def finite_or_overflow_no_zdiv)
    then show ?thesis
      by (cases "int_truediv (y - s) (height - s)") (simp_all add: get_shadow_factor_def Inr)
  qed
next
  assume b: "height < 2 ^ 53"
  obtain c where c: "rnd (7 / 10) = Fin c" "11 / 16 \<le> c" "c \<le> 23 / 32" using c07 by (elim exE conjE)
  have tf: "to_float height = Inr (Fin (of_int height))" using h b by (intro to_float_small) simp
  have d: "is_double (of_int height)" using h b by (intro is_double_int) simp
  have "\<exists>q. rnd (of_int height * c) = Fin q \<and> 0 \<le> q \<and> q \<le> of_int height"
    using h c d by (intro rnd_between) (simp_all add: mult_left_le)
  then obtain q where q: "rnd (of_int height * c) = Fin q" by (elim exE conjE)
  show "\<exists>s. shadow_start_of height = Inr s"
    by (simp add: shadow_start_of_def tf c q)
qed

theorem shadow_start_below_height_witness:
  "(1::int) \<le> 4 \<and> shadow_start_of 4 = Inr 2
   \<and> ((0::int) \<le> 2 \<and> (2::int) < 4 \<and> (1::int) \<le> 4 - 2)
   \<and> get_shadow_factor 3 4 (Fin (1 / 2)) \<noteq> Inl ZeroDivisionError
   \<and> (\<exists>s. shadow_start_of 4 = Inr s)"
proof -
  have h: "(1::int) \<le> 4" by simp
  have b: "(4::int) < 2 ^ 53" by simp
  note t = shadow_start_below_height [OF h]
  show ?thesis
    by (intro conjI h shadow_start_4 t [THEN conjunct1, rule_format, OF shadow_start_4]
        t [THEN conjunct2, THEN conjunct1, rule_format]
        t [THEN conjunct2, THEN conjunct2, rule_format, OF b])
qed

text \<open>
  C2, as stated, fails: at the last row the factor is not \<open>1.0 - max_shadow\<close>. For
  \<open>height = 4\<close> the threshold is 2, the last row is \<open>y = 3\<close>, its progress is
  \<open>(3 - 2) / (4 - 2) = 0.5\<close>, and with \<open>max_shadow = 0.5\<close> the factor is 0.75, not 0.5.
\<close>

theorem shadow_factor_last_row_counterexample:
  "get_shadow_factor (4 - 1) 4 (Fin (1 / 2)) = Inr (Fin (3 / 4))
   \<and> fsub (Fin 1) (Fin (1 / 2)) = Fin (1 / 2)
   \<and> get_shadow_factor (4 - 1) 4 (Fin (1 / 2)) \<noteq> Inr (fsub (Fin 1) (Fin (1 / 2)))"
  using shadow_factor_4_3 by (simp add: fsub_def rnd_half)

text \<open>
  C2, amended. For every height \<open>\<ge> 1\<close> and \<open>max_shadow\<close> in \<open>[0, 1]\<close>: rows above the
  threshold \<open>int(height * 0.7)\<close> get the factor 1.0; a row \<open>y\<close> from the threshold to the
  last one gets \<open>1.0 - ((y - shadow_start) / (height - shadow_start)) * max_shadow\<close>, which
  is exactly 1.0 at the threshold row and lies between \<open>1.0 - max_shadow\<close> and 1.0 on every
  row (the value \<open>1.0 - max_shadow\<close> belongs to the row \<open>y = height\<close>, which no image has).
\<close>

theorem shadow_factor_range:
  assumes h: "1 \<le> height" and s: "shadow_start_of height = Inr s"
    and ms: "is_double ms" "0 \<le> ms" "ms \<le> 1"
  shows "(\<forall>y. y < s \<longrightarrow> get_shadow_factor y height (Fin ms) = Inr (Fin 1))
       \<and> get_shadow_factor s height (Fin ms) = Inr (Fin 1)
       \<and> (\<forall>y. s \<le> y \<and> y < height \<longrightarrow>
            (\<exists>p f lo. int_truediv (y - s) (height - s) = Inr (Fin p) \<and> 0 \<le> p \<and> p \<le> 1
               \<and> get_shadow_factor y height (Fin ms) = Inr (fsub (Fin 1) (fmul (Fin p) (Fin ms)))
               \<and> fsub (Fin 1) (fmul (Fin p) (Fin ms)) = Fin f
               \<and> fsub (Fin 1) (Fin ms) = Fin lo \<and> lo \<le> f \<and> f \<le> 1))"
proof (intro conjI allI impI)
  fix y :: int assume "y < s"
  then show "get_shadow_factor y height (Fin ms) = Inr (Fin 1)"
    by (simp add: get_shadow_factor_def s)
next
  have sh: "s < height" using shadow_start_bound [OF h s] by simp
  then show "get_shadow_factor s height (Fin ms) = Inr (Fin 1)"
    by (simp add: get_shadow_factor_def s int_truediv_def finite_or_overflow_def rnd_0 rnd_1 fsub_def)
next
  fix y :: int assume y: "s \<le> y \<and> y < height"
  have sh: "s < height" using shadow_start_bound [OF h s] by simp
  define q0 :: rat where "q0 = of_int (y - s) / of_int (height - s)"
  have q0: "0 \<le> q0" "q0 \<le> 1" using y sh by (simp_all add: q0_def)
  have "\<exists>p. rnd q0 = Fin p \<and> 0 \<le> p \<and> p \<le> 1" using q0 by (intro rnd_between) simp_all
  then obtain p where p: "rnd q0 = Fin p" "0 \<le> p" "p \<le> 1" by (elim exE conjE)
  have "\<exists>t. rnd (p * ms) = Fin t \<and> 0 \<le> t \<and> t \<le> ms"
    using p ms by (intro rnd_between) (simp_all add: mult_left_le_one_le)
  then obtain t where t: "rnd (p * ms) = Fin t" "0 \<le> t" "t \<le> ms" by (elim exE conjE)
  have "\<exists>f. rnd (1 - t) = Fin f \<and> 0 \<le> f \<and> f \<le> 1"
    using t ms by (intro rnd_between) simp_all
  then obtain f where f: "rnd (1 - t) = Fin f" "0 \<le> f" "f \<le> 1" by (elim exE conjE)
  have "\<exists>lo. rnd (1 - ms) = Fin lo \<and> 0 \<le> lo \<and> lo \<le> 1"
    using ms by (intro rnd_between) simp_all
  then obtain lo where lo: "rnd (1 - ms) = Fin lo" by (elim exE conjE)
  have le: "lo = rnd_fin (1 - ms)" and lb: "\<bar>lo\<bar> < 2 ^ 1024"
    using rnd_FinD [OF lo] by (rule conjunct1, rule conjunct2)
  have fe: "f = rnd_fin (1 - t)" and fb: "\<bar>f\<bar> < 2 ^ 1024"
    using rnd_FinD [OF f(1)] by (rule conjunct1, rule conjunct2)
  have tm: "1 - ms \<le> 1 - t" using t(3) by simp
  have "rnd_fin (1 - ms) \<le> rnd_fin (1 - t)"
    by (rule rnd_fin_mono [OF tm lb [unfolded le] fb [unfolded fe]])
  then have lf: "lo \<le> f" by (simp only: le fe)
  have td: "int_truediv (y - s) (height - s) = Inr (Fin p)"
    using sh p(1) by (simp add: int_truediv_def finite_or_overflow_def q0_def)
  have g: "get_shadow_factor y height (Fin ms) = Inr (fsub (Fin 1) (fmul (Fin p) (Fin ms)))"
    using y by (simp add: get_shadow_factor_def s td)
  have ff: "fsub (Fin 1) (fmul (Fin p) (Fin ms)) = Fin f" by (simp add: t f fsub_def)
  have fl: "fsub (Fin 1) (Fin ms) = Fin lo" by (simp add: lo fsub_def)
  show "\<exists>p f lo. int_truediv (y - s) (height - s) = Inr (Fin p) \<and> 0 \<le> p \<and> p \<le> 1
               \<and> get_shadow_factor y height (Fin ms) = Inr (fsub (Fin 1) (fmul (Fin p) (Fin ms)))
               \<and> fsub (Fin 1) (fmul (Fin p) (Fin ms)) = Fin f
               \<and> fsub (Fin 1) (Fin ms) = Fin lo \<and> lo \<le> f \<and> f \<le> 1"
    by (intro exI [of _ p] exI [of _ f] exI [of _ lo] conjI td p g ff fl lf f)
qed

theorem shadow_factor_range_witness:
  "(1::int) \<le> 4 \<and> shadow_start_of 4 = Inr 2 \<and> is_double (1 / 2) \<and> (0::rat) \<le> 1 / 2 \<and> (1 / 2 :: rat) \<le> 1
   \<and> get_shadow_factor 1 4 (Fin (1 / 2)) = Inr (Fin 1)
   \<and> get_shadow_factor 2 4 (Fin (1 / 2)) = Inr (Fin 1)
   \<and> (\<exists>p f lo. int_truediv (3 - 2) (4 - 2) = Inr (Fin p) \<and> 0 \<le> p \<and> p \<le> 1
        \<and> get_shadow_factor 3 4 (Fin (1 / 2)) = Inr (fsub (Fin 1) (fmul (Fin p) (Fin (1 / 2))))
        \<and> fsub (Fin 1) (fmul (Fin p) (Fin (1 / 2))) = Fin f
        \<and> fsub (Fin 1) (Fin (1 / 2)) = Fin lo \<and> lo \<le> f \<and> f \<le> 1)"
proof -
  have h: "(1::int) \<le> 4" by simp
  have d: "is_double (1 / 2)" using is_double_frac [of 1 1] by simp
  have a: "(0::rat) \<le> 1 / 2" and b: "(1 / 2 :: rat) \<le> 1" by simp_all
  have y1: "(1::int) < 2" by simp
  have y3: "(2::int) \<le> 3 \<and> (3::int) < 4" by simp
  note t = shadow_factor_range [OF h shadow_start_4 d a b]
  show ?thesis
    by (intro conjI h shadow_start_4 d a b t [THEN conjunct1, rule_format, OF y1]
        t [THEN conjunct2, THEN conjunct1] t [THEN conjunct2, THEN conjunct2, rule_format, OF y3])
qed

text \<open>
  C3, as stated, fails: the fraction of the anti-aliasing band is not always strictly below 1.
  For a 112 by 112 image with radius 5 the pixel \<open>(1, 2)\<close> lies in the top-left corner box,
  its distance to the centre \<open>(5, 5)\<close> is exactly 5, which is not above the radius, and the
  function returns \<open>(5 - 3.5) / 1.5 = 1.0\<close>. (The squares of 3 and 4 are exact, so the run
  is the same for every \<^verbatim>\<open>pow\<close> that is accurate to less than one unit in the last place.)
\<close>

theorem corner_fraction_counterexample:
  "in_corner 1 (Fin 5) (Fin 106) (Fin 5) \<and> in_corner 2 (Fin 5) (Fin 106) (Fin 5)
   \<and> corner_dist_to pow_rounded 1 2 (Fin 5) (Fin 5) = Inr (Fin 5)
   \<and> fgt (Fin 5) (fsub (Fin 5) (Fin (3 / 2))) \<and> \<not> fgt (Fin 5) (Fin 5)
   \<and> distance_to_corner pow_rounded 1 2 112 112 (Fin 5) = Inr (Fin 1)
   \<and> \<not> (\<exists>f. distance_to_corner pow_rounded 1 2 112 112 (Fin 5) = Inr (Fin f) \<and> 0 < f \<and> f < 1)"
  by (simp add: dist_112_r5 [OF pow_rounded_3_4] corner_dist_3_4 [OF pow_rounded_3_4]
      in_corner_def exact_def fgt_def fsub_def rnd_7_2)

text \<open>
  C3, amended. Let \<open>0 \<le> x < width\<close>, \<open>0 \<le> y < height\<close>, the dimensions be below \<open>2\<^sup>5\<^sup>3\<close>, the
  radius \<open>r\<close> be any float with \<open>0 \<le> r < 2\<^sup>5\<^sup>2\<close>, and let the \<^verbatim>\<open>pow\<close> of the platform return
  a finite non-negative number for the differences that occur. Then \<^verbatim>\<open>width - radius - 1\<close>,
  \<^verbatim>\<open>height - radius - 1\<close> and \<^verbatim>\<open>radius - 1.5\<close> are finite floats \<open>wr\<close>, \<open>hr\<close>, \<open>rm\<close> (\<open>rm\<close>
  within \<open>2\<^sup>-\<^sup>5\<^sup>3\<close> of \<open>r - 1.5\<close>), the four corners are examined in the order top-left, top-right,
  bottom-left, bottom-right, and every distance is a finite non-negative number. The result is
  decided by the first corner whose box contains the pixel and whose distance \<open>d\<close> to the
  centre exceeds \<open>rm\<close>: it is 1.0 when \<open>d > r\<close>, and the fraction \<open>(d - rm) / 1.5\<close>, which lies
  in \<open>(0, 1]\<close>, when \<open>d \<le> r\<close>. A corner whose box contains the pixel at a distance \<open>\<le> rm\<close> is
  passed over and the later corners are still examined. The result is 0.0 when no corner
  qualifies, in particular for a pixel outside every corner box.
\<close>

theorem corner_distance_cases:
  fixes x y width height :: int and r :: rat
  assumes px: "0 \<le> x" "x < width" and py: "0 \<le> y" "y < height"
    and sz: "width < 2 ^ 53" "height < 2 ^ 53"
    and r: "is_double r" "0 \<le> r" "r < 2 ^ 52"
    and pw: "\<forall>a. 0 < a \<and> a \<le> 2 ^ 56 \<longrightarrow> (\<exists>b. pw a = Fin b \<and> 0 \<le> b \<and> b \<le> 2 ^ 113)"
  shows "\<exists>wr hr rm.
      fsub (fsub (Fin (of_int width)) (Fin r)) (Fin 1) = Fin wr
    \<and> fsub (fsub (Fin (of_int height)) (Fin r)) (Fin 1) = Fin hr
    \<and> fsub (Fin r) (Fin (3 / 2)) = Fin rm \<and> \<bar>rm - (r - 3 / 2)\<bar> \<le> 1 / 2 ^ 53
    \<and> (let corners = [(Fin r, Fin r), (Fin wr, Fin r), (Fin r, Fin hr), (Fin wr, Fin hr)];
           box = (\<lambda>(cx, cy). in_corner x (Fin r) (Fin wr) cx \<and> in_corner y (Fin r) (Fin hr) cy);
           res = distance_to_corner pw x y width height (Fin r)
       in (\<forall>(cx, cy) \<in> set corners. \<exists>d. corner_dist_to pw x y cx cy = Inr (Fin d) \<and> 0 \<le> d)
        \<and> ((\<forall>c \<in> set corners. \<not> box c) \<longrightarrow> res = Inr (Fin 0))
        \<and> (case find (\<lambda>(cx, cy). box (cx, cy)
                    \<and> (case corner_dist_to pw x y cx cy of Inr (Fin d) \<Rightarrow> rm < d | _ \<Rightarrow> False))
                  corners of
             None \<Rightarrow> res = Inr (Fin 0)
           | Some (cx, cy) \<Rightarrow> (\<exists>d. corner_dist_to pw x y cx cy = Inr (Fin d) \<and> rm < d
                \<and> (r < d \<longrightarrow> res = Inr (Fin 1))
                \<and> (d \<le> r \<longrightarrow> (\<exists>f. res = Inr (Fin f)
                      \<and> fdiv (corner_value (Fin d) (Fin r)) (Fin (3 / 2)) = Inr (Fin f)
                      \<and> 0 < f \<and> f \<le> 1)))))"
proof -
  have w0: "0 \<le> width" and h0: "0 \<le> height" using px py by simp_all
  have r53: "r \<le> 2 ^ 53" using r(3) by simp
  obtain wr where wr: "fsub (fsub (Fin (of_int width)) (Fin r)) (Fin 1) = Fin wr" "\<bar>wr\<bar> \<le> 2 ^ 54"
    using corner_centre_finite [OF w0 sz(1) r(2) r53] by (elim exE conjE)
  obtain hr where hr: "fsub (fsub (Fin (of_int height)) (Fin r)) (Fin 1) = Fin hr" "\<bar>hr\<bar> \<le> 2 ^ 54"
    using corner_centre_finite [OF h0 sz(2) r(2) r53] by (elim exE conjE)
  obtain rm where rmh: "fsub (Fin r) (Fin (3 / 2)) = Fin rm" and drm: "is_double rm"
    and cl: "\<bar>rm - (r - 3 / 2)\<bar> \<le> 1 / 2 ^ 53" and rmr: "rm \<le> r"
    using radius_minus [OF r] by (elim exE conjE)
  define corners where "corners = [(Fin r, Fin r), (Fin wr, Fin r), (Fin r, Fin hr), (Fin wr, Fin hr)]"
  define res where "res = distance_to_corner pw x y width height (Fin r)"
  have ax: "\<bar>x\<bar> < 2 ^ 53" and ay: "\<bar>y\<bar> < 2 ^ 53" and aw: "\<bar>width\<bar> < 2 ^ 53" and ah: "\<bar>height\<bar> < 2 ^ 53"
    using px py sz by simp_all
  have ar: "\<bar>r\<bar> \<le> 2 ^ 54" using r by simp
  have res: "res = corner_loop pw x y (Fin r) (Fin wr) (Fin hr) corners"
    unfolding res_def corners_def distance_to_corner_def
    by (simp only: to_float_small [OF aw] to_float_small [OF ah] and_then_simps wr(1) hr(1) Let_def)
  have fin: "\<forall>c\<in>set corners. \<exists>d. corner_dist_to pw x y (fst c) (snd c) = Inr (Fin d) \<and> 0 \<le> d
               \<and> (\<exists>k. d = of_int k * 2 powi (- 1074))"
    unfolding corners_def
    using corner_dist_to_finite [OF pw ax ay ar ar] corner_dist_to_finite [OF pw ax ay wr(2) ar]
      corner_dist_to_finite [OF pw ax ay ar hr(2)] corner_dist_to_finite [OF pw ax ay wr(2) hr(2)]
    by simp
  have p1: "\<forall>(cx, cy) \<in> set corners. \<exists>d. corner_dist_to pw x y cx cy = Inr (Fin d) \<and> 0 \<le> d"
    using fin by fastforce
  have p2: "(\<forall>c \<in> set corners. \<not> (case c of (cx, cy) \<Rightarrow>
                in_corner x (Fin r) (Fin wr) cx \<and> in_corner y (Fin r) (Fin hr) cy)) \<longrightarrow> res = Inr (Fin 0)"
    unfolding res corners_def by simp
  have fin': "\<forall>c\<in>set corners. \<exists>d. corner_dist_to pw x y (fst c) (snd c) = Inr (Fin d)"
    using fin by blast
  note cl' = corner_loop_find [OF rmh rmr fin', where wr = "Fin wr" and hr = "Fin hr", folded res]
  have p3: "case find (\<lambda>(cx, cy). (in_corner x (Fin r) (Fin wr) cx \<and> in_corner y (Fin r) (Fin hr) cy)
                    \<and> (case corner_dist_to pw x y cx cy of Inr (Fin d) \<Rightarrow> rm < d | _ \<Rightarrow> False))
                  corners of
             None \<Rightarrow> res = Inr (Fin 0)
           | Some (cx, cy) \<Rightarrow> (\<exists>d. corner_dist_to pw x y cx cy = Inr (Fin d) \<and> rm < d
                \<and> (r < d \<longrightarrow> res = Inr (Fin 1))
                \<and> (d \<le> r \<longrightarrow> (\<exists>f. res = Inr (Fin f)
                      \<and> fdiv (corner_value (Fin d) (Fin r)) (Fin (3 / 2)) = Inr (Fin f)
                      \<and> 0 < f \<and> f \<le> 1)))"
  proof (cases "find (\<lambda>(cx, cy). (in_corner x (Fin r) (Fin wr) cx \<and> in_corner y (Fin r) (Fin hr) cy)
                    \<and> (case corner_dist_to pw x y cx cy of Inr (Fin d) \<Rightarrow> rm < d | _ \<Rightarrow> False))
                  corners")
    case None
    then show ?thesis using cl' by simp
  next
    case (Some c)
    obtain cx cy where c: "c = (cx, cy)" by (cases c)
    note fm = find_mem [OF Some [unfolded c]]
    have mem: "(cx, cy) \<in> set corners" using fm by (rule conjunct1)
    have "\<exists>d. corner_dist_to pw x y cx cy = Inr (Fin d) \<and> rm < d
              \<and> res = (if r < d then Inr (Fin 1) else fdiv (corner_value (Fin d) (Fin r)) (Fin (3 / 2)))"
      using cl' unfolding Some c by simp
    then obtain d where d: "corner_dist_to pw x y cx cy = Inr (Fin d)" "rm < d"
      "res = (if r < d then Inr (Fin 1) else fdiv (corner_value (Fin d) (Fin r)) (Fin (3 / 2)))"
      by (elim exE conjE)
    have "\<exists>d'. corner_dist_to pw x y cx cy = Inr (Fin d') \<and> 0 \<le> d'
               \<and> (\<exists>k. d' = of_int k * 2 powi (- 1074))"
      using fin [rule_format, OF mem] by simp
    then obtain k where k: "d = of_int k * 2 powi (- 1074)" unfolding d(1) by auto
    have band: "\<exists>f. res = Inr (Fin f) \<and> fdiv (corner_value (Fin d) (Fin r)) (Fin (3 / 2)) = Inr (Fin f)
            \<and> 0 < f \<and> f \<le> 1" if le: "d \<le> r"
    proof -
      obtain f where f: "fdiv (corner_value (Fin d) (Fin r)) (Fin (3 / 2)) = Inr (Fin f)" "0 < f" "f \<le> 1"
        using corner_fraction_range [OF k rmh drm cl d(2) le] by (elim exE conjE)
      have "res = Inr (Fin f)" using d(3) le f(1) by simp
      then show ?thesis using f by blast
    qed
    have out: "res = Inr (Fin 1)" if "r < d" using d(3) that by simp
    have "\<exists>d. corner_dist_to pw x y cx cy = Inr (Fin d) \<and> rm < d
                \<and> (r < d \<longrightarrow> res = Inr (Fin 1))
                \<and> (d \<le> r \<longrightarrow> (\<exists>f. res = Inr (Fin f)
                      \<and> fdiv (corner_value (Fin d) (Fin r)) (Fin (3 / 2)) = Inr (Fin f)
                      \<and> 0 < f \<and> f \<le> 1))"
    proof (rule exI [of _ d])
      have b: "d \<le> r \<longrightarrow> (\<exists>f. res = Inr (Fin f)
                      \<and> fdiv (corner_value (Fin d) (Fin r)) (Fin (3 / 2)) = Inr (Fin f)
                      \<and> 0 < f \<and> f \<le> 1)" by (rule impI) (rule band)
      have o: "r < d \<longrightarrow> res = Inr (Fin 1)" by (rule impI) (rule out)
      show "corner_dist_to pw x y cx cy = Inr (Fin d) \<and> rm < d
                \<and> (r < d \<longrightarrow> res = Inr (Fin 1))
                \<and> (d \<le> r \<longrightarrow> (\<exists>f. res = Inr (Fin f)
                      \<and> fdiv (corner_value (Fin d) (Fin r)) (Fin (3 / 2)) = Inr (Fin f)
                      \<and> 0 < f \<and> f \<le> 1))"
        by (intro d(1) d(2) o b conjI)
    qed
    then show ?thesis unfolding Some c by (simp only: option.case prod.case)
  qed
  show ?thesis
    apply (rule exI [of _ wr], rule exI [of _ hr], rule exI [of _ rm])
    apply (intro conjI wr(1) hr(1) rmh cl)
    unfolding Let_def
    using p1 p2 p3 unfolding corners_def res_def by simp
qed

theorem corner_distance_cases_witness:
  "(0::int) \<le> 2 \<and> (2::int) < 4 \<and> (4::int) < 2 ^ 53 \<and> is_double 3 \<and> (0::rat) \<le> 3 \<and> (3::rat) < 2 ^ 52
   \<and> in_corner 2 (Fin 3) (Fin 0) (Fin 3) \<and> in_corner 2 (Fin 3) (Fin 0) (Fin 0)
   \<and> fsub (Fin 3) (Fin (3 / 2)) = Fin (3 / 2)
   \<and> corner_dist_to pow_rounded 2 2 (Fin 3) (Fin 3) = Inr (Fin (rnd_sqrt 2)) \<and> rnd_sqrt 2 \<le> 3 / 2
   \<and> (\<exists>d f. corner_dist_to pow_rounded 2 2 (Fin 0) (Fin 3) = Inr (Fin d) \<and> 3 / 2 < d \<and> d \<le> 3
         \<and> distance_to_corner pow_rounded 2 2 4 4 (Fin 3) = Inr (Fin f)
         \<and> fdiv (corner_value (Fin d) (Fin 3)) (Fin (3 / 2)) = Inr (Fin f) \<and> 0 < f \<and> f \<le> 1)"
proof -
  have h1: "(0::int) \<le> 2" and h2: "(2::int) < 4" and h3: "(4::int) < 2 ^ 53"
    and h5: "(0::rat) \<le> 3" and h6: "(3::rat) < 2 ^ 52" by simp_all
  have h4: "is_double 3" by (rule is_double_numeral) simp
  have b1: "in_corner 2 (Fin 3) (Fin 0) (Fin 3)" and b2: "in_corner 2 (Fin 3) (Fin 0) (Fin 0)"
    by (simp_all add: in_corner_def exact_def fgt_def)
  have rmv: "fsub (Fin 3) (Fin (3 / 2)) = Fin (3 / 2)" by (simp add: fsub_def rnd_3_2)
  have s2: "rnd_sqrt 2 \<le> 3 / 2" and n2: "\<not> 3 / 2 < rnd_sqrt 2" using sqrt2_bounds(2) by simp_all
  have s5: "3 / 2 < rnd_sqrt 5" using sqrt5_gt2 by simp
  have n5: "\<not> 3 < rnd_sqrt 5" using sqrt5_le3 by simp
  have n2': "\<not> 3 < rnd_sqrt 2 * 2" using sqrt2_bounds(2) by simp
  have s5': "3 < rnd_sqrt 5 * 2" using sqrt5_gt2 by simp
  obtain wr hr rm where A: "fsub (fsub (Fin (of_int 4)) (Fin 3)) (Fin 1) = Fin wr"
    and B: "fsub (fsub (Fin (of_int 4)) (Fin 3)) (Fin 1) = Fin hr"
    and R: "fsub (Fin 3) (Fin (3 / 2)) = Fin rm"
    and C: "(let corners = [(Fin 3, Fin 3), (Fin wr, Fin 3), (Fin 3, Fin hr), (Fin wr, Fin hr)];
           box = (\<lambda>(cx, cy). in_corner 2 (Fin 3) (Fin wr) cx \<and> in_corner 2 (Fin 3) (Fin hr) cy);
           res = distance_to_corner pow_rounded 2 2 4 4 (Fin 3)
       in (\<forall>(cx, cy) \<in> set corners. \<exists>d. corner_dist_to pow_rounded 2 2 cx cy = Inr (Fin d) \<and> 0 \<le> d)
        \<and> ((\<forall>c \<in> set corners. \<not> box c) \<longrightarrow> res = Inr (Fin 0))
        \<and> (case find (\<lambda>(cx, cy). box (cx, cy)
                    \<and> (case corner_dist_to pow_rounded 2 2 cx cy of Inr (Fin d) \<Rightarrow> rm < d | _ \<Rightarrow> False))
                  corners of
             None \<Rightarrow> res = Inr (Fin 0)
           | Some (cx, cy) \<Rightarrow> (\<exists>d. corner_dist_to pow_rounded 2 2 cx cy = Inr (Fin d) \<and> rm < d
                \<and> (3 < d \<longrightarrow> res = Inr (Fin 1))
                \<and> (d \<le> 3 \<longrightarrow> (\<exists>f. res = Inr (Fin f)
                      \<and> fdiv (corner_value (Fin d) (Fin 3)) (Fin (3 / 2)) = Inr (Fin f)
                      \<and> 0 < f \<and> f \<le> 1)))))"
    using corner_distance_cases [OF h1 h2 h1 h2 h3 h3 h4 h5 h6 pow_rounded_finite] by (elim exE conjE)
  have wr: "wr = 0" using A by (simp add: fsub_def rnd_small)
  have hr: "hr = 0" using B by (simp add: fsub_def rnd_small)
  have rm: "rm = 3 / 2" using R by (simp add: rmv)
  have "\<exists>f. distance_to_corner pow_rounded 2 2 4 4 (Fin 3) = Inr (Fin f)
            \<and> fdiv (corner_value (Fin (rnd_sqrt 5)) (Fin 3)) (Fin (3 / 2)) = Inr (Fin f)
            \<and> 0 < f \<and> f \<le> 1"
    using C unfolding Let_def wr hr rm
    by (simp add: b1 b2 corner_dist_4x4 n2 s5 n5 n2' s5' sqrt5_le3)
  then obtain f where f: "distance_to_corner pow_rounded 2 2 4 4 (Fin 3) = Inr (Fin f)"
    "fdiv (corner_value (Fin (rnd_sqrt 5)) (Fin 3)) (Fin (3 / 2)) = Inr (Fin f)" "0 < f" "f \<le> 1"
    by (elim exE conjE)
  have E: "\<exists>d f. corner_dist_to pow_rounded 2 2 (Fin 0) (Fin 3) = Inr (Fin d) \<and> 3 / 2 < d \<and> d \<le> 3
         \<and> distance_to_corner pow_rounded 2 2 4 4 (Fin 3) = Inr (Fin f)
         \<and> fdiv (corner_value (Fin d) (Fin 3)) (Fin (3 / 2)) = Inr (Fin f) \<and> 0 < f \<and> f \<le> 1"
    by (rule exI [of _ "rnd_sqrt 5"], rule exI [of _ f])
       (intro corner_dist_4x4(2) s5 sqrt5_le3 f conjI)
  show ?thesis
    by (intro h1 h2 h3 h4 h5 h6 b1 b2 rmv corner_dist_4x4(1) s2 E conjI)
qed


section \<open>Claims about the serializer\<close>




text \<open>
  C6. Let the serializer have produced the text \<open>t1\<close> from a sequence of bytes, and let the
  extractor read \<open>t1\<close>. Then the extractor returns the same bytes, and the serializer run on
  them and on \<open>t1\<close> with the same width returns \<open>t1\<close> itself, character for character; in
  particular the array body that the pattern finds in \<open>t1\<close> is the body the serializer renders
  from the extracted bytes: the same rows of \<open>width\<close> pixels, the same indentation and
  trailing commas, the same two-digit lower-case hexadecimal numbers.
\<close>

theorem serializer_round_trip:
  assumes bytes: "\<forall>b\<in>set pixels. 0 \<le> b \<and> b \<le> 255"
    and f1: "format_output pixels content width = Inr t1"
    and p1: "parse_c_file t1 = Inr (pixels1, c1, v1)"
  shows "pixels1 = pixels \<and> c1 = t1 \<and> format_output pixels1 t1 width = Inr t1
       \<and> (\<exists>body s e1 e2. array_body pixels1 width = Inr body \<and> re_search t1 = Some (s, e1, e2)
             \<and> take (e2 - e1) (drop (s + e1) t1) = body)"
proof -
  obtain body where b: "array_body pixels width = Inr body" and t1: "t1 = re_sub body content"
    using f1 unfolding format_output_def by (auto dest!: and_then_InrD)
  note bf = array_body_bytes [OF bytes b]
  obtain s' e1' e2' where s1: "re_search t1 = Some (s', e1', e2')"
    and px: "pixels1 = map int_hex (findall_hex (take (e2' - e1') (drop (s' + e1') t1)))"
    and c1: "c1 = t1"
    using p1 unfolding parse_c_file_def Let_def by (auto split: option.splits)
  have "re_search content \<noteq> None"
  proof
    assume n: "re_search content = None"
    then have "t1 = content" unfolding t1 by (rule re_sub_no_match)
    then show False using s1 n by simp
  qed
  then obtain s e1 e2 where s0: "re_search content = Some (s, e1, e2)" by auto
  have st: "re_search t1 = Some (s, e1, e1 + length body)"
    unfolding t1 by (rule re_search_stable [OF bf(1,2) s0])
  then have eq: "s' = s" "e1' = e1" "e2' = e1 + length body" using s1 by simp_all
  note snd = re_search_sound [OF s0]
  note br = match_at_brace [OF snd [THEN conjunct2]]
  have len: "s + e1 \<le> length content" using snd [THEN conjunct1] br(3,4) by simp
  have sh: "t1 = take (s + e1) content @ body @ ''}'' @ re_sub body (drop (s + e2 + 1) content)"
    unfolding t1 by (rule re_sub_first_match [OF s0])
  have "drop (s + e1) t1 = body @ ''}'' @ re_sub body (drop (s + e2 + 1) content)"
  proof -
    have "length (take (s + e1) content) = s + e1" using len by simp
    then show ?thesis using sh by (metis append_eq_conv_conj)
  qed
  then have tb: "take (e2' - e1') (drop (s' + e1') t1) = body" unfolding eq by simp
  have p: "pixels1 = pixels" unfolding px tb by (rule bf(3))
  have "re_sub body t1 = t1" unfolding t1 by (rule re_sub_idem [OF bf(1,2)])
  then have f2: "format_output pixels1 t1 width = Inr t1"
    unfolding p format_output_def b by simp
  have e: "\<exists>body s e1 e2. array_body pixels1 width = Inr body \<and> re_search t1 = Some (s, e1, e2)
             \<and> take (e2 - e1) (drop (s + e1) t1) = body"
    using b s1 tb unfolding p by (intro exI conjI)
  show ?thesis by (intro conjI p c1 f2 e)
qed

theorem serializer_round_trip_witness:
  "format_output [255, 0, 16, 171] ''const uint8_t icon[] = { 0xff };'' 1
     = Inr ''const uint8_t icon[] = {\<newline>  0xff, 0x00, 0x10, 0xab,\<newline>};''
   \<and> parse_c_file ''const uint8_t icon[] = {\<newline>  0xff, 0x00, 0x10, 0xab,\<newline>};''
     = Inr ([255, 0, 16, 171], ''const uint8_t icon[] = {\<newline>  0xff, 0x00, 0x10, 0xab,\<newline>};'', ''icon'')
   \<and> format_output [255, 0, 16, 171] ''const uint8_t icon[] = {\<newline>  0xff, 0x00, 0x10, 0xab,\<newline>};'' 1
     = Inr ''const uint8_t icon[] = {\<newline>  0xff, 0x00, 0x10, 0xab,\<newline>};''
   \<and> re_search ''const uint8_t icon[] = {\<newline>  0xff, 0x00, 0x10, 0xab,\<newline>};'' = Some (6, 18, 45)
   \<and> take (45 - 18) (drop (6 + 18) ''const uint8_t icon[] = {\<newline>  0xff, 0x00, 0x10, 0xab,\<newline>};'')
     = ''\<newline>  0xff, 0x00, 0x10, 0xab,\<newline>''"
proof -
  have bytes: "\<forall>b\<in>set [255, 0, 16, 171 :: int]. 0 \<le> b \<and> b \<le> 255" by simp
  note c = serializer_round_trip [OF bytes round_trip_run(1) round_trip_run(2)]
  obtain body s e1 e2 where b: "array_body [255, 0, 16, 171] 1 = Inr body"
    and r: "re_search ''const uint8_t icon[] = {\<newline>  0xff, 0x00, 0x10, 0xab,\<newline>};'' = Some (s, e1, e2)"
    and t: "take (e2 - e1) (drop (s + e1) ''const uint8_t icon[] = {\<newline>  0xff, 0x00, 0x10, 0xab,\<newline>};'') = body"
    using c [THEN conjunct2, THEN conjunct2, THEN conjunct2] by (elim exE conjE)
  have bb: "body = ''\<newline>  0xff, 0x00, 0x10, 0xab,\<newline>''" using b unfolding round_trip_run(3) by simp
  have se: "s = 6" "e1 = 18" "e2 = 45" using r unfolding round_trip_run(4) by simp_all
  note t' = t [unfolded se bb]
  show ?thesis
    by (intro conjI round_trip_run(1) round_trip_run(2) round_trip_run(4) t'
        c [THEN conjunct2, THEN conjunct2, THEN conjunct1])
qed

end
